theory Spec2Isabelle
  imports Complex_Main "HOL-Library.Word" "HOL-Library.Log_Nat" "HOL-Library.Monad_Syntax"
begin

section \<open>Machine types of the target\<close>

text \<open>
  The firmware is built for the MSP430: \<open>unsigned int\<close> is 16 bits wide and
  \<open>unsigned char\<close> is 8 bits wide. Both wrap around on overflow.
\<close>

type_synonym u8 = "8 word"
type_synonym u16 = "16 word"

section \<open>A model of \<open>double\<close> arithmetic\<close>

text \<open>
  The two conversion functions multiply in \<open>double\<close>. A \<open>double\<close> value is a
  rational number with a significand of \<open>p\<close> bits; every operation returns the exact
  result rounded to the nearest such number, ties to the even significand. The
  precision \<open>p\<close> is a property of the compiler and not of \<open>Adc.c\<close>: it is 24 when
  \<open>double\<close> is the 32-bit format and 53 when it is the 64-bit format, so it is a
  parameter of the model. The exponent range is not modelled: every value that occurs
  below lies between \<open>1\<close> and \<open>2 ^ 27\<close>, or is \<open>0\<close>.
\<close>

definition ilog2 :: "real \<Rightarrow> int" where
  \<comment> \<open>\<open>\<lfloor>log\<^sub>2 x\<rfloor>\<close> for \<open>x > 0\<close>\<close>
  "ilog2 x = (if 1 \<le> x then bitlen \<lfloor>x\<rfloor> - 1 else - bitlen (\<lceil>1 / x\<rceil> - 1))"

definition scale2 :: "int \<Rightarrow> real" where
  "scale2 e = (if 0 \<le> e then 2 ^ nat e else 1 / 2 ^ nat (- e))"

definition round_even :: "real \<Rightarrow> int" where
  "round_even y =
     (let f = \<lfloor>y\<rfloor>; r = y - of_int f
      in if r < 1 / 2 then f
         else if 1 / 2 < r then f + 1
         else if even f then f else f + 1)"

definition fp_round_pos :: "nat \<Rightarrow> real \<Rightarrow> real" where
  "fp_round_pos p x =
     (let e = ilog2 x - (int p - 1)
      in of_int (round_even (x / scale2 e)) * scale2 e)"

definition fp_round :: "nat \<Rightarrow> real \<Rightarrow> real" where
  "fp_round p x =
     (if x = 0 then 0
      else if 0 < x then fp_round_pos p x
      else - fp_round_pos p (- x))"

definition dbl_add :: "nat \<Rightarrow> real \<Rightarrow> real \<Rightarrow> real" where
  "dbl_add p a b = fp_round p (a + b)"

definition dbl_mul :: "nat \<Rightarrow> real \<Rightarrow> real \<Rightarrow> real" where
  "dbl_mul p a b = fp_round p (a * b)"

definition dbl_div :: "nat \<Rightarrow> real \<Rightarrow> real \<Rightarrow> real" where
  "dbl_div p a b = fp_round p (a / b)"

definition dbl_lit :: "nat \<Rightarrow> real \<Rightarrow> real" where
  \<comment> \<open>a floating literal of the source\<close>
  "dbl_lit p x = fp_round p x"

definition dbl_of_uint :: "nat \<Rightarrow> u16 \<Rightarrow> real" where
  \<comment> \<open>the cast \<open>(double)Counts\<close>\<close>
  "dbl_of_uint p c = fp_round p (of_nat (unat c))"

definition uint_of_dbl :: "real \<Rightarrow> u16" where
  \<comment> \<open>the cast \<open>(unsigned int)d\<close>: the fraction is discarded (towards zero)\<close>
  "uint_of_dbl d = word_of_int (if 0 \<le> d then \<lfloor>d\<rfloor> else \<lceil>d\<rceil>)"

section \<open>Conversion of converter counts\<close>

definition CONVERSION_FACTOR_BATTERY :: "nat \<Rightarrow> real" where
  "CONVERSION_FACTOR_BATTERY p =
     dbl_div p
       (dbl_mul p (dbl_mul p (dbl_add p (dbl_lit p 24300) (dbl_lit p 38300)) (dbl_lit p (5 / 2)))
                  (dbl_lit p 1000))
       (dbl_mul p (dbl_lit p 4095) (dbl_lit p 24300))"

definition AdcCountsToBatteryVoltage :: "nat \<Rightarrow> u16 \<Rightarrow> u16" where
  "AdcCountsToBatteryVoltage p Counts =
     uint_of_dbl (dbl_mul p (CONVERSION_FACTOR_BATTERY p) (dbl_of_uint p Counts))"

definition CONVERSION_FACTOR :: "nat \<Rightarrow> real" where
  "CONVERSION_FACTOR p =
     dbl_div p (dbl_mul p (dbl_lit p (5 / 2)) (dbl_lit p 10000)) (dbl_lit p 4096)"

definition AdcCountsToVoltage :: "nat \<Rightarrow> u16 \<Rightarrow> u16" where
  "AdcCountsToVoltage p Counts =
     uint_of_dbl (dbl_mul p (CONVERSION_FACTOR p) (dbl_of_uint p Counts))"

section \<open>State of the module\<close>

text \<open>
  The file-scope variables of \<open>Adc.c\<close>, together with what the module leaves in
  its collaborators: the mutex that guards the converter (\<open>True\<close> when held), the
  two items of the non-volatile store, the messages handed to \<open>RouteMsg\<close> (oldest
  first), the lines printed on the debug port, and the sequence of operations on the
  mutex, the sensors and the converter.
\<close>

datatype nv_id = NVID_LOW_BATTERY_WARNING_LEVEL | NVID_LOW_BATTERY_BTOFF_LEVEL

datatype eMessageType =
    TurnRadioOnMsg
  | LowBatteryBtOffMsgHost
  | LowBatteryBtOffMsg
  | LowBatteryWarningMsgHost
  | LowBatteryWarningMsg
  | SetVibrateMode

record tSetVibrateModePayload =
  Enable :: u8
  OnDurationLsb :: u8
  OnDurationMsb :: u8
  OffDurationLsb :: u8
  OffDurationMsb :: u8
  NumberOfCycles :: u8

text \<open>
  A routed message, with the fields the module writes into the buffer it was given:
  the type alone, a host message built by \<open>UTL_BuildHstMsg\<close> (type, options, payload
  bytes), or a vibration request with its payload structure.
\<close>

datatype tHostMsg =
    TypeOnly eMessageType
  | HostMsg eMessageType u8 "u8 list"
  | VibrateMsg tSetVibrateModePayload

fun msg_type :: "tHostMsg \<Rightarrow> eMessageType" where
  "msg_type (TypeOnly t) = t"
| "msg_type (HostMsg t opts bytes) = t"
| "msg_type (VibrateMsg v) = SetVibrateMode"

datatype adc_channel = ADC12MEM0 | ADC12MEM1 | ADC12MEM2

datatype hw_action =
    SemaphoreTake
  | SemaphoreGive
  | HARDWARE_CFG_SENSE_ENABLE
  | HARDWARE_CFG_SENSE_DISABLE
  | BATTERY_SENSE_ENABLE
  | BATTERY_SENSE_DISABLE
  | LIGHT_SENSOR_L_GAIN
  | LIGHT_SENSOR_SHUTDOWN
  | CLEAR_START_ADDR
  | SetStartAddr adc_channel
  | ENABLE_ADC
  | DISABLE_ADC
  | ReadAdcBusy
  | ReadAdcMem adc_channel
  | TaskDelayLpmDisable
  | TaskDelayLpmEnable
  | vTaskDelay nat

abbreviation MAX_SAMPLES :: nat where
  "MAX_SAMPLES \<equiv> 10"

abbreviation DEFAULT_LOW_BATTERY_WARNING_LEVEL :: u16 where
  "DEFAULT_LOW_BATTERY_WARNING_LEVEL \<equiv> 3500"

abbreviation DEFAULT_LOW_BATTERY_BTOFF_LEVEL :: u16 where
  "DEFAULT_LOW_BATTERY_BTOFF_LEVEL \<equiv> 3300"

record adc_state =
  AdcHardwareMutex :: bool
  HardwareConfiguration :: u16
  BatterySense :: u16
  LightSense :: u16
  BatterySenseSamples :: "u16 list"
  LightSenseSamples :: "u16 list"
  BatterySenseSampleIndex :: u8
  LightSenseSampleIndex :: u8
  BatterySenseAverageReady :: u8
  LightSenseAverageReady :: u8
  LowBatteryWarningMessageSent :: u8
  LowBatteryBtOffMessageSent :: u8
  LowBatteryWarningLevel :: u16
  LowBatteryBtOffLevel :: u16
  nv_store :: "nv_id \<Rightarrow> u16 option"
  routed :: "tHostMsg list"
  debug_uart :: "(u16 \<times> u16) list"
  hw_log :: "hw_action list"

text \<open>
  What a conversion cycle reads from outside the module: the precision of
  \<open>double\<close>, the successive readings of the converter's busy flag, the count in the
  conversion memory when the conversion is over, and the answers of the calibration
  provider.
\<close>

record cycle_env =
  double_precision :: nat
  adc_busy :: "nat \<Rightarrow> bool"
  adc_mem :: u16
  QueryCalibrationValid :: bool
  GetBatteryCalibrationValue :: u16

text \<open>
  What one pass of the low-battery monitor reads from outside the module: the two
  queries, and the bytes of the address space (the monitor hands an address to
  \<open>UTL_BuildHstMsg\<close>).
\<close>

record monitor_env =
  QueryBatteryDebug :: bool
  QueryPowerGood :: bool
  memory :: "u16 \<Rightarrow> u8"

definition power_on :: "(nv_id \<Rightarrow> u16 option) \<Rightarrow> adc_state" where
  \<comment> \<open>the statics as the C start-up code leaves them, over a given non-volatile store\<close>
  "power_on nv =
     \<lparr> AdcHardwareMutex = False,
       HardwareConfiguration = 0, BatterySense = 0, LightSense = 0,
       BatterySenseSamples = replicate MAX_SAMPLES 0,
       LightSenseSamples = replicate MAX_SAMPLES 0,
       BatterySenseSampleIndex = 0, LightSenseSampleIndex = 0,
       BatterySenseAverageReady = 0, LightSenseAverageReady = 0,
       LowBatteryWarningMessageSent = 0, LowBatteryBtOffMessageSent = 0,
       LowBatteryWarningLevel = 0, LowBatteryBtOffLevel = 0,
       nv_store = nv, routed = [], debug_uart = [], hw_log = [] \<rparr>"

section \<open>Collaborators\<close>

definition hw :: "hw_action list \<Rightarrow> adc_state \<Rightarrow> adc_state" where
  "hw as s = s\<lparr>hw_log := hw_log s @ as\<rparr>"

definition xSemaphoreTake :: "adc_state \<Rightarrow> adc_state option" where
  \<comment> \<open>with \<open>portMAX_DELAY\<close>: returns once the mutex is free, and not at all while it is held\<close>
  "xSemaphoreTake s =
     (if AdcHardwareMutex s then None
      else Some (hw [SemaphoreTake] (s\<lparr>AdcHardwareMutex := True\<rparr>)))"

definition xSemaphoreGive :: "adc_state \<Rightarrow> adc_state" where
  "xSemaphoreGive s = hw [SemaphoreGive] (s\<lparr>AdcHardwareMutex := False\<rparr>)"

definition RouteMsg :: "tHostMsg \<Rightarrow> adc_state \<Rightarrow> adc_state" where
  "RouteMsg m s = s\<lparr>routed := routed s @ [m]\<rparr>"

definition PrintStringAndTwoDecimals :: "u16 \<Rightarrow> u16 \<Rightarrow> adc_state \<Rightarrow> adc_state" where
  "PrintStringAndTwoDecimals a b s = s\<lparr>debug_uart := debug_uart s @ [(a, b)]\<rparr>"

text \<open>
  Modelled from the spec: \<open>UTL_BuildHstMsg\<close> is defined in another file of the
  firmware. It fills a message with the type, the options and \<open>Size\<close> payload bytes
  copied from the address \<open>pData\<close>.
\<close>

definition UTL_BuildHstMsg ::
  "(u16 \<Rightarrow> u8) \<Rightarrow> eMessageType \<Rightarrow> u8 \<Rightarrow> u16 \<Rightarrow> nat \<Rightarrow> tHostMsg" where
  "UTL_BuildHstMsg mem Type Options pData Size =
     HostMsg Type Options (map (\<lambda>k. mem (pData + of_nat k)) [0..<Size])"

definition NO_MSG_OPTIONS :: u8 where
  "NO_MSG_OPTIONS = 0"

text \<open>
  Modelled from the spec: the non-volatile store is defined in another file of the
  firmware. It is a key-value store: \<open>OsalNvWrite\<close> puts a value under a key, and
  \<open>OsalNvItemInit\<close> returns the stored value when the key is present and otherwise
  stores and returns the value it is given.
\<close>

definition OsalNvWrite :: "nv_id \<Rightarrow> u16 \<Rightarrow> adc_state \<Rightarrow> adc_state" where
  "OsalNvWrite k v s = s\<lparr>nv_store := (nv_store s)(k \<mapsto> v)\<rparr>"

definition OsalNvItemInit :: "nv_id \<Rightarrow> u16 \<Rightarrow> adc_state \<Rightarrow> u16 \<times> adc_state" where
  "OsalNvItemInit k v s =
     (case nv_store s k of
        Some stored \<Rightarrow> (stored, s)
      | None \<Rightarrow> (v, s\<lparr>nv_store := (nv_store s)(k \<mapsto> v)\<rparr>))"

section \<open>Conversion cycles\<close>

text \<open>
  \<open>WaitForAdcBusy\<close> polls the busy flag and yields to the scheduler until the flag
  is clear. The \<open>k\<close>-th reading of the flag is \<open>busy k\<close>; when no reading is ever
  clear the loop does not end, and the result is \<open>None\<close>.
\<close>

partial_function (option) wait_loop :: "(nat \<Rightarrow> bool) \<Rightarrow> nat \<Rightarrow> adc_state \<Rightarrow> adc_state option" where
  "wait_loop busy k s =
     (if busy k then wait_loop busy (Suc k) (hw [ReadAdcBusy, vTaskDelay 0] s)
      else Some (hw [ReadAdcBusy] s))"

definition WaitForAdcBusy :: "cycle_env \<Rightarrow> adc_state \<Rightarrow> adc_state option" where
  "WaitForAdcBusy env s =
     do { s1 \<leftarrow> wait_loop (adc_busy env) 0 (hw [TaskDelayLpmDisable] s);
          Some (hw [TaskDelayLpmEnable] s1) }"

definition EndAdcCycle :: "adc_state \<Rightarrow> adc_state" where
  "EndAdcCycle s = xSemaphoreGive (hw [DISABLE_ADC] s)"

definition StartHardwareCfgConversion :: "adc_state \<Rightarrow> adc_state" where
  "StartHardwareCfgConversion s = hw [CLEAR_START_ADDR, SetStartAddr ADC12MEM0, ENABLE_ADC] s"

definition FinishHardwareCfgCycle :: "cycle_env \<Rightarrow> adc_state \<Rightarrow> adc_state" where
  "FinishHardwareCfgCycle env s =
     (let s1 = hw [ReadAdcMem ADC12MEM0]
                 (s\<lparr>HardwareConfiguration := AdcCountsToVoltage (double_precision env) (adc_mem env)\<rparr>)
      in EndAdcCycle (hw [HARDWARE_CFG_SENSE_DISABLE, DISABLE_ADC] s1))"

definition HardwareCfgCycle :: "cycle_env \<Rightarrow> adc_state \<Rightarrow> adc_state option" where
  "HardwareCfgCycle env s =
     do { s1 \<leftarrow> xSemaphoreTake s;
          s2 \<leftarrow> WaitForAdcBusy env (StartHardwareCfgConversion (hw [HARDWARE_CFG_SENSE_ENABLE] s1));
          Some (FinishHardwareCfgCycle env s2) }"

definition StartBatterySenseConversion :: "adc_state \<Rightarrow> adc_state" where
  "StartBatterySenseConversion s = hw [CLEAR_START_ADDR, SetStartAddr ADC12MEM1, ENABLE_ADC] s"

definition FinishBatterySenseCycle :: "cycle_env \<Rightarrow> adc_state \<Rightarrow> adc_state" where
  "FinishBatterySenseCycle env s =
     (let s1 = hw [ReadAdcMem ADC12MEM1]
                 (s\<lparr>BatterySense := AdcCountsToBatteryVoltage (double_precision env) (adc_mem env)\<rparr>);
          s2 = (if QueryCalibrationValid env
                then s1\<lparr>BatterySense := BatterySense s1 + GetBatteryCalibrationValue env\<rparr>
                else s1);
          i = BatterySenseSampleIndex s2;
          s3 = s2\<lparr>BatterySenseSamples := (BatterySenseSamples s2)[unat i := BatterySense s2],
                   BatterySenseSampleIndex := i + 1\<rparr>;
          s4 = (if MAX_SAMPLES \<le> unat (BatterySenseSampleIndex s3)
                then s3\<lparr>BatterySenseSampleIndex := 0, BatterySenseAverageReady := 1\<rparr>
                else s3)
      in EndAdcCycle (hw [BATTERY_SENSE_DISABLE] s4))"

definition BatterySenseCycle :: "cycle_env \<Rightarrow> adc_state \<Rightarrow> adc_state option" where
  "BatterySenseCycle env s =
     do { s1 \<leftarrow> xSemaphoreTake s;
          s2 \<leftarrow> WaitForAdcBusy env (StartBatterySenseConversion (hw [BATTERY_SENSE_ENABLE] s1));
          Some (FinishBatterySenseCycle env s2) }"

definition StartLightSenseConversion :: "adc_state \<Rightarrow> adc_state" where
  "StartLightSenseConversion s = hw [CLEAR_START_ADDR, SetStartAddr ADC12MEM2, ENABLE_ADC] s"

definition FinishLightSenseCycle :: "cycle_env \<Rightarrow> adc_state \<Rightarrow> adc_state" where
  "FinishLightSenseCycle env s =
     (let s1 = hw [ReadAdcMem ADC12MEM2]
                 (s\<lparr>LightSense := AdcCountsToVoltage (double_precision env) (adc_mem env)\<rparr>);
          i = LightSenseSampleIndex s1;
          s2 = s1\<lparr>LightSenseSamples := (LightSenseSamples s1)[unat i := LightSense s1],
                   LightSenseSampleIndex := i + 1\<rparr>;
          s3 = (if MAX_SAMPLES \<le> unat (LightSenseSampleIndex s2)
                then s2\<lparr>LightSenseSampleIndex := 0, LightSenseAverageReady := 1\<rparr>
                else s2)
      in EndAdcCycle (hw [LIGHT_SENSOR_SHUTDOWN] s3))"

definition LightSenseCycle :: "cycle_env \<Rightarrow> adc_state \<Rightarrow> adc_state option" where
  "LightSenseCycle env s =
     do { s1 \<leftarrow> xSemaphoreTake s;
          s2 \<leftarrow> WaitForAdcBusy env
                 (StartLightSenseConversion
                    (hw [LIGHT_SENSOR_L_GAIN, TaskDelayLpmDisable, vTaskDelay 10, TaskDelayLpmEnable] s1));
          Some (FinishLightSenseCycle env s2) }"

section \<open>Accessors and averages\<close>

text \<open>
  The summation loop of the two averages. The accumulator \<open>SampleTotal\<close> is an
  \<open>unsigned int\<close>, so the sum is taken modulo \<open>2 ^ 16\<close>.
\<close>

function sample_total :: "u16 list \<Rightarrow> nat \<Rightarrow> u16 \<Rightarrow> u16" where
  "sample_total Samples i SampleTotal =
     (if i < MAX_SAMPLES then sample_total Samples (Suc i) (SampleTotal + Samples ! i)
      else SampleTotal)"
  by pat_completeness auto
termination
  by (relation "measure (\<lambda>(Samples, i, SampleTotal). MAX_SAMPLES - i)") auto

definition ReadBatterySense :: "adc_state \<Rightarrow> u16" where
  "ReadBatterySense s = BatterySense s"

definition ReadBatterySenseAverage :: "adc_state \<Rightarrow> u16" where
  "ReadBatterySenseAverage s =
     (if BatterySenseAverageReady s \<noteq> 0
      then sample_total (BatterySenseSamples s) 0 0 div of_nat MAX_SAMPLES
      else BatterySense s)"

definition ReadLightSense :: "adc_state \<Rightarrow> u16" where
  "ReadLightSense s = LightSense s"

definition ReadLightSenseAverage :: "adc_state \<Rightarrow> u16" where
  "ReadLightSenseAverage s =
     (if LightSenseAverageReady s \<noteq> 0
      then sample_total (LightSenseSamples s) 0 0 div of_nat MAX_SAMPLES
      else LightSense s)"

definition ReadHardwareConfiguration :: "adc_state \<Rightarrow> u16" where
  "ReadHardwareConfiguration s = HardwareConfiguration s"

section \<open>Low-battery monitor\<close>

definition bt_off_vibration :: tSetVibrateModePayload where
  "bt_off_vibration =
     \<lparr> Enable = 1, OnDurationLsb = 0x00, OnDurationMsb = 0x01,
       OffDurationLsb = 0x00, OffDurationMsb = 0x01, NumberOfCycles = 5 \<rparr>"

definition warning_vibration :: tSetVibrateModePayload where
  "warning_vibration =
     \<lparr> Enable = 1, OnDurationLsb = 0x00, OnDurationMsb = 0x02,
       OffDurationLsb = 0x00, OffDurationMsb = 0x02, NumberOfCycles = 5 \<rparr>"

text \<open>
  The host messages are built with \<open>(unsigned char*)BatteryAverage\<close> as the address of
  the payload: the value of the average, converted to a pointer.
\<close>

definition LowBatteryMonitor :: "monitor_env \<Rightarrow> adc_state \<Rightarrow> adc_state" where
  "LowBatteryMonitor env s =
     (let BatteryAverage = ReadBatterySenseAverage s;
          s1 = (if QueryBatteryDebug env
                then PrintStringAndTwoDecimals (BatterySense s) BatteryAverage s
                else s)
      in if QueryPowerGood env
         then
           (let s2 = (if LowBatteryBtOffMessageSent s1 \<noteq> 0
                      then RouteMsg (TypeOnly TurnRadioOnMsg) s1
                      else s1)
            in s2\<lparr>LowBatteryWarningMessageSent := 0, LowBatteryBtOffMessageSent := 0\<rparr>)
         else
           (let s2 = (if BatteryAverage < LowBatteryBtOffLevel s1
                         \<and> LowBatteryBtOffMessageSent s1 = 0
                      then RouteMsg (VibrateMsg bt_off_vibration)
                             (RouteMsg (TypeOnly LowBatteryBtOffMsg)
                                (RouteMsg (UTL_BuildHstMsg (memory env) LowBatteryBtOffMsgHost
                                             NO_MSG_OPTIONS BatteryAverage 2)
                                   (s1\<lparr>LowBatteryBtOffMessageSent := 1\<rparr>)))
                      else s1)
            in if BatteryAverage < LowBatteryWarningLevel s2
                  \<and> LowBatteryWarningMessageSent s2 = 0
               then RouteMsg (VibrateMsg warning_vibration)
                      (RouteMsg (TypeOnly LowBatteryWarningMsg)
                         (RouteMsg (UTL_BuildHstMsg (memory env) LowBatteryWarningMsgHost
                                      NO_MSG_OPTIONS BatteryAverage 2)
                            (s2\<lparr>LowBatteryWarningMessageSent := 1\<rparr>)))
               else s2))"

section \<open>Thresholds\<close>

text \<open>
  \<open>SetBatteryLevels\<close> receives a pointer to bytes; \<open>pData k\<close> is the byte at offset
  \<open>k\<close>. Each byte is promoted to \<open>unsigned int\<close> before the multiplication.
\<close>

definition SetBatteryLevels :: "(nat \<Rightarrow> u8) \<Rightarrow> adc_state \<Rightarrow> adc_state" where
  "SetBatteryLevels pData s =
     (let s1 = s\<lparr>LowBatteryWarningLevel := ucast (pData 0) * 100\<rparr>;
          s2 = s1\<lparr>LowBatteryBtOffLevel := ucast (pData 1) * 100\<rparr>;
          s3 = OsalNvWrite NVID_LOW_BATTERY_WARNING_LEVEL (LowBatteryWarningLevel s2) s2
      in OsalNvWrite NVID_LOW_BATTERY_BTOFF_LEVEL (LowBatteryBtOffLevel s3) s3)"

definition InitializeLowBatteryLevels :: "adc_state \<Rightarrow> adc_state" where
  "InitializeLowBatteryLevels s =
     (let s1 = s\<lparr>LowBatteryWarningLevel := DEFAULT_LOW_BATTERY_WARNING_LEVEL\<rparr>;
          s2 = s1\<lparr>LowBatteryBtOffLevel := DEFAULT_LOW_BATTERY_BTOFF_LEVEL\<rparr>;
          (w, s3) = OsalNvItemInit NVID_LOW_BATTERY_WARNING_LEVEL (LowBatteryWarningLevel s2) s2;
          s4 = s3\<lparr>LowBatteryWarningLevel := w\<rparr>;
          (b, s5) = OsalNvItemInit NVID_LOW_BATTERY_BTOFF_LEVEL (LowBatteryBtOffLevel s4) s4
      in s5\<lparr>LowBatteryBtOffLevel := b\<rparr>)"

section \<open>Initialisation\<close>

text \<open>
  \<open>InitializeAdc\<close> without its writes to the converter's control registers: it
  resets the indices, the readings and the ready flags (not the sample buffers),
  creates the mutex and gives it, loads the thresholds and clears the two latches.
\<close>

definition InitializeAdc :: "adc_state \<Rightarrow> adc_state" where
  "InitializeAdc s =
     (let s1 = s\<lparr>BatterySenseSampleIndex := 0, LightSenseSampleIndex := 0,
                  HardwareConfiguration := 0, BatterySense := 0, LightSense := 0,
                  BatterySenseAverageReady := 0, LightSenseAverageReady := 0\<rparr>;
          s2 = xSemaphoreGive (s1\<lparr>AdcHardwareMutex := False\<rparr>);
          s3 = InitializeLowBatteryLevels s2
      in s3\<lparr>LowBatteryWarningMessageSent := 0, LowBatteryBtOffMessageSent := 0\<rparr>)"

section \<open>Sequences of calls\<close>

text \<open>
  The entry points that change the state, each with what it reads from outside. A
  sequence of calls runs from left to right and ends at the first call that does not
  return.
\<close>

datatype adc_call =
    Call_HardwareCfgCycle cycle_env
  | Call_BatterySenseCycle cycle_env
  | Call_LightSenseCycle cycle_env
  | Call_LowBatteryMonitor monitor_env
  | Call_SetBatteryLevels "nat \<Rightarrow> u8"

fun call :: "adc_call \<Rightarrow> adc_state \<Rightarrow> adc_state option" where
  "call (Call_HardwareCfgCycle env) s = HardwareCfgCycle env s"
| "call (Call_BatterySenseCycle env) s = BatterySenseCycle env s"
| "call (Call_LightSenseCycle env) s = LightSenseCycle env s"
| "call (Call_LowBatteryMonitor env) s = Some (LowBatteryMonitor env s)"
| "call (Call_SetBatteryLevels pData) s = Some (SetBatteryLevels pData s)"

fun run :: "adc_call list \<Rightarrow> adc_state \<Rightarrow> adc_state option" where
  "run [] s = Some s"
| "run (c # cs) s = do { s1 \<leftarrow> call c s; run cs s1 }"

section \<open>Auxiliary notions\<close>

definition polls :: "nat \<Rightarrow> hw_action list" where
  "polls n = concat (replicate n [ReadAdcBusy, vTaskDelay 0]) @ [ReadAdcBusy]"

definition first_ready :: "(nat \<Rightarrow> bool) \<Rightarrow> nat \<Rightarrow> bool" where
  "first_ready busy n = (\<not> busy n \<and> (\<forall>j<n. busy j))"

type_synonym averager = "u16 \<times> u16 list \<times> u8 \<times> u8"

definition publish :: "u16 \<Rightarrow> averager \<Rightarrow> averager" where
  "publish v a =
     (case a of (x, xs, i, r) \<Rightarrow>
        if MAX_SAMPLES \<le> unat (i + 1) then (v, xs[unat i := v], 0, 1)
        else (v, xs[unat i := v], i + 1, r))"

definition average :: "averager \<Rightarrow> u16" where
  "average a = (case a of (x, xs, i, r) \<Rightarrow>
      if r \<noteq> 0 then sample_total xs 0 0 div of_nat MAX_SAMPLES else x)"

definition battery_averager :: "adc_state \<Rightarrow> averager" where
  "battery_averager s =
     (BatterySense s, BatterySenseSamples s, BatterySenseSampleIndex s, BatterySenseAverageReady s)"

definition light_averager :: "adc_state \<Rightarrow> averager" where
  "light_averager s =
     (LightSense s, LightSenseSamples s, LightSenseSampleIndex s, LightSenseAverageReady s)"

definition battery_published :: "cycle_env \<Rightarrow> u16" where
  "battery_published env =
     AdcCountsToBatteryVoltage (double_precision env) (adc_mem env)
       + (if QueryCalibrationValid env then GetBatteryCalibrationValue env else 0)"

definition light_published :: "cycle_env \<Rightarrow> u16" where
  "light_published env = AdcCountsToVoltage (double_precision env) (adc_mem env)"

text \<open>What the monitor reads and writes besides the battery average.\<close>

definition alert_view :: "adc_state \<Rightarrow> u8 \<times> u8 \<times> u16 \<times> u16 \<times> tHostMsg list" where
  "alert_view s = (LowBatteryWarningMessageSent s, LowBatteryBtOffMessageSent s,
     LowBatteryWarningLevel s, LowBatteryBtOffLevel s, routed s)"

fun power_good_call :: "adc_call \<Rightarrow> bool" where
  "power_good_call (Call_LowBatteryMonitor env) = QueryPowerGood env"
| "power_good_call c = False"

definition is_bt_off :: "tHostMsg \<Rightarrow> bool" where
  "is_bt_off m = (msg_type m = LowBatteryBtOffMsgHost \<or> msg_type m = LowBatteryBtOffMsg
                   \<or> m = VibrateMsg bt_off_vibration)"

definition bt_off_group :: "(u16 \<Rightarrow> u8) \<Rightarrow> u16 \<Rightarrow> tHostMsg list" where
  "bt_off_group mem v =
     [HostMsg LowBatteryBtOffMsgHost NO_MSG_OPTIONS [mem v, mem (v + 1)],
      TypeOnly LowBatteryBtOffMsg,
      VibrateMsg bt_off_vibration]"

definition warning_group :: "(u16 \<Rightarrow> u8) \<Rightarrow> u16 \<Rightarrow> tHostMsg list" where
  "warning_group mem v =
     [HostMsg LowBatteryWarningMsgHost NO_MSG_OPTIONS [mem v, mem (v + 1)],
      TypeOnly LowBatteryWarningMsg,
      VibrateMsg warning_vibration]"

definition quiet_monitor :: monitor_env where
  "quiet_monitor = \<lparr> QueryBatteryDebug = False, QueryPowerGood = False, memory = (\<lambda>a. 0) \<rparr>"

definition charging_monitor :: monitor_env where
  "charging_monitor = \<lparr> QueryBatteryDebug = False, QueryPowerGood = True, memory = (\<lambda>a. 0) \<rparr>"

definition first_boot :: adc_state where
  "first_boot = InitializeAdc (power_on Map.empty)"

definition latched_state :: adc_state where
  "latched_state = LowBatteryMonitor quiet_monitor first_boot"

definition sample_calls :: "adc_call list" where
  "sample_calls =
     [Call_LowBatteryMonitor quiet_monitor,
      Call_SetBatteryLevels (\<lambda>k. if k = 0 then 40 else 38),
      Call_LowBatteryMonitor quiet_monitor]"

definition ring_inv :: "u16 list \<Rightarrow> averager \<Rightarrow> bool" where
  "ring_inv vs a =
     (case a of (x, xs, i, r) \<Rightarrow>
        length xs = MAX_SAMPLES \<and> unat i = length vs mod MAX_SAMPLES
        \<and> x = (if vs = [] then 0 else last vs)
        \<and> (if length vs < MAX_SAMPLES then r = 0 \<and> take (length vs) xs = vs
            else r = 1 \<and> drop (unat i) xs @ take (unat i) xs = drop (length vs - MAX_SAMPLES) vs))"

fun battery_values :: "adc_call list \<Rightarrow> u16 list" where
  "battery_values [] = []"
| "battery_values (Call_BatterySenseCycle env # cs) = battery_published env # battery_values cs"
| "battery_values (c # cs) = battery_values cs"

fun light_values :: "adc_call list \<Rightarrow> u16 list" where
  "light_values [] = []"
| "light_values (Call_LightSenseCycle env # cs) = light_published env # light_values cs"
| "light_values (c # cs) = light_values cs"

fun converter_answers :: "adc_call \<Rightarrow> bool" where
  "converter_answers (Call_HardwareCfgCycle env) = (\<exists>n. \<not> adc_busy env n)"
| "converter_answers (Call_BatterySenseCycle env) = (\<exists>n. \<not> adc_busy env n)"
| "converter_answers (Call_LightSenseCycle env) = (\<exists>n. \<not> adc_busy env n)"
| "converter_answers c = True"

definition hot_battery_env :: cycle_env where
  "hot_battery_env =
     \<lparr> double_precision = 53, adc_busy = (\<lambda>k. False), adc_mem = 4095,
       QueryCalibrationValid = True, GetBatteryCalibrationValue = 127 \<rparr>"

definition ten_hot_cycles :: "adc_call list" where
  "ten_hot_cycles = replicate MAX_SAMPLES (Call_BatterySenseCycle hot_battery_env)"

definition bright_env :: cycle_env where
  "bright_env =
     \<lparr> double_precision = 53, adc_busy = (\<lambda>k. False), adc_mem = 4095,
       QueryCalibrationValid = False, GetBatteryCalibrationValue = 0 \<rparr>"

definition ten_bright_cycles :: "adc_call list" where
  "ten_bright_cycles = replicate MAX_SAMPLES (Call_LightSenseCycle bright_env)"

definition low_battery_env :: cycle_env where
  "low_battery_env =
     \<lparr> double_precision = 53, adc_busy = (\<lambda>k. False), adc_mem = 2000,
       QueryCalibrationValid = False, GetBatteryCalibrationValue = 0 \<rparr>"

definition marked_monitor :: monitor_env where
  "marked_monitor =
     \<lparr> QueryBatteryDebug = False, QueryPowerGood = False,
       memory = (\<lambda>a. if a = 3145 then 0xAA else if a = 3146 then 0xBB else 0) \<rparr>"

definition le16 :: "u16 \<Rightarrow> u8 list" where
  \<comment> \<open>the two bytes of a 16-bit value, low byte first\<close>
  "le16 v = [ucast v, ucast (drop_bit 8 v)]"

definition eleven_cycles :: "adc_call list" where
  "eleven_cycles =
     Call_BatterySenseCycle hot_battery_env
       # replicate MAX_SAMPLES (Call_BatterySenseCycle low_battery_env)"

definition low_battery_calls :: "adc_call list" where
  "low_battery_calls = [Call_BatterySenseCycle low_battery_env, Call_LowBatteryMonitor marked_monitor]"

fun is_cycle :: "adc_call \<Rightarrow> bool" where
  "is_cycle (Call_HardwareCfgCycle env) = True"
| "is_cycle (Call_BatterySenseCycle env) = True"
| "is_cycle (Call_LightSenseCycle env) = True"
| "is_cycle c = False"

definition cycle_trace :: "adc_call \<Rightarrow> hw_action list option" where
  \<comment> \<open>what one cycle does to the mutex, the sensors and the converter, in order\<close>
  "cycle_trace c = map_option hw_log (call c (power_on Map.empty))"

text \<open>
  Modelled from the spec: the scheduler and the mutex are FreeRTOS code outside
  \<open>Adc.c\<close>. Tasks are numbered; each is idle or has the rest of one conversion cycle
  to run, and the steps of different tasks interleave in any order. Taking the mutex is
  possible only while nobody holds it (the caller waits otherwise); giving it frees it.
\<close>

record sched_state =
  holder :: "nat option"
  pending :: "nat \<Rightarrow> hw_action list"

definition idle :: sched_state where
  "idle = \<lparr> holder = None, pending = (\<lambda>t. []) \<rparr>"

inductive step :: "sched_state \<Rightarrow> sched_state \<Rightarrow> bool" where
  start: "pending \<sigma> t = [] \<Longrightarrow> is_cycle c \<Longrightarrow> cycle_trace c = Some as
          \<Longrightarrow> step \<sigma> (\<sigma>\<lparr>pending := (pending \<sigma>)(t := as)\<rparr>)"
| take: "pending \<sigma> t = SemaphoreTake # as \<Longrightarrow> holder \<sigma> = None
          \<Longrightarrow> step \<sigma> (\<sigma>\<lparr>holder := Some t, pending := (pending \<sigma>)(t := as)\<rparr>)"
| give: "pending \<sigma> t = SemaphoreGive # as
          \<Longrightarrow> step \<sigma> (\<sigma>\<lparr>holder := None, pending := (pending \<sigma>)(t := as)\<rparr>)"
| other: "pending \<sigma> t = a # as \<Longrightarrow> a \<noteq> SemaphoreTake \<Longrightarrow> a \<noteq> SemaphoreGive
          \<Longrightarrow> step \<sigma> (\<sigma>\<lparr>pending := (pending \<sigma>)(t := as)\<rparr>)"

definition in_cycle :: "sched_state \<Rightarrow> nat \<Rightarrow> bool" where
  \<comment> \<open>the task has taken the mutex for its cycle and has not yet given it back\<close>
  "in_cycle \<sigma> t = (pending \<sigma> t \<noteq> [] \<and> SemaphoreTake \<notin> set (pending \<sigma> t))"

definition clean :: "hw_action list \<Rightarrow> bool" where
  "clean body = (SemaphoreTake \<notin> set body \<and> SemaphoreGive \<notin> set body)"

definition wf_pending :: "hw_action list \<Rightarrow> bool" where
  "wf_pending as = (as = [] \<or> (\<exists>body. clean body \<and> (as = SemaphoreTake # body @ [SemaphoreGive] \<or> as = body @ [SemaphoreGive])))"

definition sched_inv :: "sched_state \<Rightarrow> bool" where
  "sched_inv \<sigma> = (\<forall>t. wf_pending (pending \<sigma> t) \<and> (holder \<sigma> = Some t \<longleftrightarrow> in_cycle \<sigma> t))"

definition battery_trace :: "hw_action list" where
  "battery_trace =
     [SemaphoreTake, BATTERY_SENSE_ENABLE, CLEAR_START_ADDR, SetStartAddr ADC12MEM1, ENABLE_ADC,
      TaskDelayLpmDisable, ReadAdcBusy, TaskDelayLpmEnable, ReadAdcMem ADC12MEM1,
      BATTERY_SENSE_DISABLE, DISABLE_ADC, SemaphoreGive]"

definition two_tasks :: sched_state where
  "two_tasks = \<lparr> holder = Some 0, pending = (\<lambda>t. [])(0 := tl battery_trace, 1 := battery_trace) \<rparr>"

section \<open>Properties\<close>

declare sample_total.simps [simp del]

lemma hw_hw: "hw bs (hw as s) = hw (as @ bs) s"
  by (simp add: hw_def)

lemma wait_loop_Some:
  "\<not> busy (k + n) \<Longrightarrow> (\<forall>j<n. busy (k + j)) \<Longrightarrow>
   wait_loop busy k s = Some (hw (polls n) s)"
proof (induction n arbitrary: k s)
  case 0
  then show ?case by (subst wait_loop.simps) (simp add: polls_def)
next
  case (Suc n)
  have b: "busy k" using Suc.prems(2) [rule_format, of 0] by simp
  have "wait_loop busy (Suc k) (hw [ReadAdcBusy, vTaskDelay 0] s)
        = Some (hw (polls n) (hw [ReadAdcBusy, vTaskDelay 0] s))"
  proof (rule Suc.IH)
    show "\<not> busy (Suc k + n)" using Suc.prems(1) by simp
    show "\<forall>j<n. busy (Suc k + j)"
    proof (intro allI impI)
      fix j assume "j < n"
      then show "busy (Suc k + j)" using Suc.prems(2) [rule_format, of "Suc j"] by simp
    qed
  qed
  then show ?case using b by (subst wait_loop.simps) (simp add: hw_hw polls_def)
qed

lemma wait_loop_ready:
  assumes "wait_loop busy k s = Some s'"
  shows "\<exists>n. \<not> busy (k + n) \<and> (\<forall>j<n. busy (k + j)) \<and> s' = hw (polls n) s"
proof (rule wait_loop.raw_induct
    [where P = "\<lambda>busy k s s'. \<exists>n. \<not> busy (k + n) \<and> (\<forall>j<n. busy (k + j)) \<and> s' = hw (polls n) s",
      OF _ assms])
  fix wl :: "(nat \<Rightarrow> bool) \<Rightarrow> nat \<Rightarrow> adc_state \<Rightarrow> adc_state option"
  fix busy k s s'
  assume IH: "\<And>b k s y. wl b k s = Some y \<Longrightarrow>
          \<exists>n. \<not> b (k + n) \<and> (\<forall>j<n. b (k + j)) \<and> y = hw (polls n) s"
    and eq: "(if busy k then wl busy (Suc k) (hw [ReadAdcBusy, vTaskDelay 0] s)
              else Some (hw [ReadAdcBusy] s)) = Some s'"
  show "\<exists>n. \<not> busy (k + n) \<and> (\<forall>j<n. busy (k + j)) \<and> s' = hw (polls n) s"
  proof (cases "busy k")
    case False
    with eq have "s' = hw (polls 0) s" by (simp add: polls_def)
    with False show ?thesis by (intro exI [of _ 0]) simp
  next
    case True
    with eq have "wl busy (Suc k) (hw [ReadAdcBusy, vTaskDelay 0] s) = Some s'" by simp
    from IH [OF this] obtain n where n: "\<not> busy (Suc k + n)" "\<forall>j<n. busy (Suc k + j)"
      "s' = hw (polls n) (hw [ReadAdcBusy, vTaskDelay 0] s)" by blast
    have "\<forall>j<Suc n. busy (k + j)"
    proof (intro allI impI)
      fix j assume "j < Suc n"
      then show "busy (k + j)" using n(2) True by (cases j) auto
    qed
    moreover have "s' = hw (polls (Suc n)) s" using n(3) by (simp add: hw_hw polls_def)
    ultimately show ?thesis using n(1) by (intro exI [of _ "Suc n"]) simp
  qed
qed

lemma wait_loop_None: "(\<forall>n. busy (k + n)) \<Longrightarrow> wait_loop busy k s = None"
  using wait_loop_ready [of busy k s] by (cases "wait_loop busy k s") auto

lemma WaitForAdcBusy_iff:
  "WaitForAdcBusy env s = Some s' \<longleftrightarrow>
     (\<exists>n. first_ready (adc_busy env) n \<and>
          s' = hw (TaskDelayLpmDisable # polls n @ [TaskDelayLpmEnable]) s)"
proof
  assume "WaitForAdcBusy env s = Some s'"
  then obtain s1 where s1: "wait_loop (adc_busy env) 0 (hw [TaskDelayLpmDisable] s) = Some s1"
    and s': "s' = hw [TaskDelayLpmEnable] s1"
    by (auto simp: WaitForAdcBusy_def split: bind_splits)
  from wait_loop_ready [OF s1] obtain n where
    "\<not> adc_busy env n" "\<forall>j<n. adc_busy env j" "s1 = hw (polls n) (hw [TaskDelayLpmDisable] s)"
    by auto
  then show "\<exists>n. first_ready (adc_busy env) n \<and>
          s' = hw (TaskDelayLpmDisable # polls n @ [TaskDelayLpmEnable]) s"
    using s' by (intro exI [of _ n]) (simp add: first_ready_def hw_hw)
next
  assume "\<exists>n. first_ready (adc_busy env) n \<and>
          s' = hw (TaskDelayLpmDisable # polls n @ [TaskDelayLpmEnable]) s"
  then obtain n where n: "\<not> adc_busy env (0 + n)" "\<forall>j<n. adc_busy env (0 + j)"
    and s': "s' = hw (TaskDelayLpmDisable # polls n @ [TaskDelayLpmEnable]) s"
    by (auto simp: first_ready_def)
  show "WaitForAdcBusy env s = Some s'"
    by (simp add: WaitForAdcBusy_def wait_loop_Some [OF n] s' hw_hw)
qed

lemma first_ready_unique: "first_ready busy n \<Longrightarrow> first_ready busy m \<Longrightarrow> n = m"
  unfolding first_ready_def by (metis linorder_neqE_nat)

lemma first_ready_ex: "(\<exists>n. first_ready busy n) \<longleftrightarrow> (\<exists>n. \<not> busy n)"
proof
  assume "\<exists>n. \<not> busy n"
  then obtain n where "\<not> busy n" ..
  then have "\<not> busy (LEAST n. \<not> busy n)" by (rule LeastI)
  moreover have "\<forall>j<(LEAST n. \<not> busy n). busy j" using not_less_Least by blast
  ultimately show "\<exists>n. first_ready busy n" unfolding first_ready_def by blast
qed (auto simp: first_ready_def)

lemma xSemaphoreTake_iff:
  "xSemaphoreTake s = Some s' \<longleftrightarrow> \<not> AdcHardwareMutex s \<and> s' = hw [SemaphoreTake] (s\<lparr>AdcHardwareMutex := True\<rparr>)"
  by (auto simp: xSemaphoreTake_def)

lemma hw_upd_mutex: "hw as (s\<lparr>AdcHardwareMutex := b\<rparr>) = (hw as s)\<lparr>AdcHardwareMutex := b\<rparr>"
  by (simp add: hw_def)

lemma HardwareCfgCycle_iff:
  "HardwareCfgCycle env s = Some s' \<longleftrightarrow>
     \<not> AdcHardwareMutex s \<and>
     (\<exists>n. first_ready (adc_busy env) n \<and>
          s' = FinishHardwareCfgCycle env
                 (hw ([SemaphoreTake, HARDWARE_CFG_SENSE_ENABLE, CLEAR_START_ADDR, SetStartAddr ADC12MEM0,
                       ENABLE_ADC, TaskDelayLpmDisable] @ polls n @ [TaskDelayLpmEnable])
                    (s\<lparr>AdcHardwareMutex := True\<rparr>)))"
  by (simp add: HardwareCfgCycle_def bind_eq_Some_conv xSemaphoreTake_iff WaitForAdcBusy_iff StartHardwareCfgConversion_def hw_hw ex_simps [symmetric] del: ex_simps) blast

lemma BatterySenseCycle_iff:
  "BatterySenseCycle env s = Some s' \<longleftrightarrow>
     \<not> AdcHardwareMutex s \<and>
     (\<exists>n. first_ready (adc_busy env) n \<and>
          s' = FinishBatterySenseCycle env
                 (hw ([SemaphoreTake, BATTERY_SENSE_ENABLE, CLEAR_START_ADDR, SetStartAddr ADC12MEM1,
                       ENABLE_ADC, TaskDelayLpmDisable] @ polls n @ [TaskDelayLpmEnable])
                    (s\<lparr>AdcHardwareMutex := True\<rparr>)))"
  by (simp add: BatterySenseCycle_def bind_eq_Some_conv xSemaphoreTake_iff WaitForAdcBusy_iff StartBatterySenseConversion_def hw_hw ex_simps [symmetric] del: ex_simps) blast

lemma LightSenseCycle_iff:
  "LightSenseCycle env s = Some s' \<longleftrightarrow>
     \<not> AdcHardwareMutex s \<and>
     (\<exists>n. first_ready (adc_busy env) n \<and>
          s' = FinishLightSenseCycle env
                 (hw ([SemaphoreTake, LIGHT_SENSOR_L_GAIN, TaskDelayLpmDisable, vTaskDelay 10,
                       TaskDelayLpmEnable, CLEAR_START_ADDR, SetStartAddr ADC12MEM2,
                       ENABLE_ADC, TaskDelayLpmDisable] @ polls n @ [TaskDelayLpmEnable])
                    (s\<lparr>AdcHardwareMutex := True\<rparr>)))"
  by (simp add: LightSenseCycle_def bind_eq_Some_conv xSemaphoreTake_iff WaitForAdcBusy_iff StartLightSenseConversion_def hw_hw ex_simps [symmetric] del: ex_simps) blast

lemmas nv_defs = OsalNvWrite_def OsalNvItemInit_def

lemma SetBatteryLevels_eq:
  "SetBatteryLevels pData s =
     s\<lparr>LowBatteryWarningLevel := ucast (pData 0) * 100,
       LowBatteryBtOffLevel := ucast (pData 1) * 100,
       nv_store := (nv_store s)(NVID_LOW_BATTERY_WARNING_LEVEL \<mapsto> ucast (pData 0) * 100,
                                NVID_LOW_BATTERY_BTOFF_LEVEL \<mapsto> ucast (pData 1) * 100)\<rparr>"
  by (simp add: SetBatteryLevels_def nv_defs Let_def)

lemma unat_ucast_u8: "unat (ucast (b :: u8) :: u16) = unat b"
  by (simp add: unsigned_ucast_eq take_bit_nat_eq_self_iff) (use unsigned_less [of b, where 'a=nat] in simp)

lemma unat_level: "unat ((ucast (b :: u8) :: u16) * 100) = unat b * 100"
proof -
  have "unat b < 256" using unsigned_less [of b, where 'a=nat] by simp
  then have "unat b * 100 < 2 ^ 16" by simp
  then show ?thesis by (simp add: unat_word_ariths unat_ucast_u8)
qed

lemma InitializeLowBatteryLevels_warning:
  "LowBatteryWarningLevel (InitializeLowBatteryLevels s) =
     (case nv_store s NVID_LOW_BATTERY_WARNING_LEVEL of Some v \<Rightarrow> v | None \<Rightarrow> 3500)"
  by (simp add: InitializeLowBatteryLevels_def nv_defs Let_def split: option.splits)

lemma InitializeLowBatteryLevels_btoff:
  "LowBatteryBtOffLevel (InitializeLowBatteryLevels s) =
     (case nv_store s NVID_LOW_BATTERY_BTOFF_LEVEL of Some v \<Rightarrow> v | None \<Rightarrow> 3300)"
  by (simp add: InitializeLowBatteryLevels_def nv_defs Let_def split: option.splits)

lemma InitializeLowBatteryLevels_nv:
  "nv_store (InitializeLowBatteryLevels s) k =
     (case nv_store s k of Some v \<Rightarrow> Some v
      | None \<Rightarrow> Some (case k of NVID_LOW_BATTERY_WARNING_LEVEL \<Rightarrow> 3500 | NVID_LOW_BATTERY_BTOFF_LEVEL \<Rightarrow> 3300))"
  by (cases k) (simp_all add: InitializeLowBatteryLevels_def nv_defs Let_def split: option.splits)

lemmas fin_defs = EndAdcCycle_def xSemaphoreGive_def hw_def Let_def

lemma ReadBatterySenseAverage_average: "ReadBatterySenseAverage s = average (battery_averager s)"
  by (simp add: ReadBatterySenseAverage_def average_def battery_averager_def)

lemma ReadLightSenseAverage_average: "ReadLightSenseAverage s = average (light_averager s)"
  by (simp add: ReadLightSenseAverage_def average_def light_averager_def)

lemma Finish_battery:
  "battery_averager (FinishBatterySenseCycle env (hw as s)) = publish (battery_published env) (battery_averager s)"
  "light_averager (FinishBatterySenseCycle env (hw as s)) = light_averager s"
  "alert_view (FinishBatterySenseCycle env (hw as s)) = alert_view s"
  "HardwareConfiguration (FinishBatterySenseCycle env (hw as s)) = HardwareConfiguration s"
  "nv_store (FinishBatterySenseCycle env (hw as s)) = nv_store s"
  "debug_uart (FinishBatterySenseCycle env (hw as s)) = debug_uart s"
  "AdcHardwareMutex (FinishBatterySenseCycle env (hw as s)) = False"
  "hw_log (FinishBatterySenseCycle env (hw as s)) =
     hw_log s @ as @ [ReadAdcMem ADC12MEM1, BATTERY_SENSE_DISABLE, DISABLE_ADC, SemaphoreGive]"
  by (simp_all add: FinishBatterySenseCycle_def fin_defs battery_averager_def light_averager_def
      alert_view_def publish_def battery_published_def)

lemma Finish_light:
  "light_averager (FinishLightSenseCycle env (hw as s)) = publish (light_published env) (light_averager s)"
  "battery_averager (FinishLightSenseCycle env (hw as s)) = battery_averager s"
  "alert_view (FinishLightSenseCycle env (hw as s)) = alert_view s"
  "HardwareConfiguration (FinishLightSenseCycle env (hw as s)) = HardwareConfiguration s"
  "nv_store (FinishLightSenseCycle env (hw as s)) = nv_store s"
  "debug_uart (FinishLightSenseCycle env (hw as s)) = debug_uart s"
  "AdcHardwareMutex (FinishLightSenseCycle env (hw as s)) = False"
  "hw_log (FinishLightSenseCycle env (hw as s)) =
     hw_log s @ as @ [ReadAdcMem ADC12MEM2, LIGHT_SENSOR_SHUTDOWN, DISABLE_ADC, SemaphoreGive]"
  by (simp_all add: FinishLightSenseCycle_def fin_defs battery_averager_def light_averager_def
      alert_view_def publish_def light_published_def)

lemma Finish_hwcfg:
  "light_averager (FinishHardwareCfgCycle env (hw as s)) = light_averager s"
  "battery_averager (FinishHardwareCfgCycle env (hw as s)) = battery_averager s"
  "alert_view (FinishHardwareCfgCycle env (hw as s)) = alert_view s"
  "HardwareConfiguration (FinishHardwareCfgCycle env (hw as s)) =
     AdcCountsToVoltage (double_precision env) (adc_mem env)"
  "nv_store (FinishHardwareCfgCycle env (hw as s)) = nv_store s"
  "debug_uart (FinishHardwareCfgCycle env (hw as s)) = debug_uart s"
  "AdcHardwareMutex (FinishHardwareCfgCycle env (hw as s)) = False"
  "hw_log (FinishHardwareCfgCycle env (hw as s)) =
     hw_log s @ as @ [ReadAdcMem ADC12MEM0, HARDWARE_CFG_SENSE_DISABLE, DISABLE_ADC, DISABLE_ADC, SemaphoreGive]"
  by (simp_all add: FinishHardwareCfgCycle_def fin_defs battery_averager_def light_averager_def
      alert_view_def)

lemma view_mutex [simp]:
  "battery_averager (s\<lparr>AdcHardwareMutex := b\<rparr>) = battery_averager s"
  "light_averager (s\<lparr>AdcHardwareMutex := b\<rparr>) = light_averager s"
  "alert_view (s\<lparr>AdcHardwareMutex := b\<rparr>) = alert_view s"
  by (simp_all add: battery_averager_def light_averager_def alert_view_def)

lemma BatterySenseCycle_views:
  assumes "BatterySenseCycle env s = Some s'"
  shows "battery_averager s' = publish (battery_published env) (battery_averager s)"
    and "light_averager s' = light_averager s"
    and "alert_view s' = alert_view s"
    and "\<not> AdcHardwareMutex s'"
  using assms by (auto simp: BatterySenseCycle_iff Finish_battery)

lemma LightSenseCycle_views:
  assumes "LightSenseCycle env s = Some s'"
  shows "light_averager s' = publish (light_published env) (light_averager s)"
    and "battery_averager s' = battery_averager s"
    and "alert_view s' = alert_view s"
    and "\<not> AdcHardwareMutex s'"
  using assms by (auto simp: LightSenseCycle_iff Finish_light)

lemma HardwareCfgCycle_views:
  assumes "HardwareCfgCycle env s = Some s'"
  shows "light_averager s' = light_averager s"
    and "battery_averager s' = battery_averager s"
    and "alert_view s' = alert_view s"
    and "\<not> AdcHardwareMutex s'"
  using assms by (auto simp: HardwareCfgCycle_iff Finish_hwcfg)

lemma upt2: "[0..<2] = [0, Suc 0]"
  by (simp add: upt_rec)

lemmas mon_defs = LowBatteryMonitor_def Let_def RouteMsg_def PrintStringAndTwoDecimals_def
  UTL_BuildHstMsg_def upt2

lemma LowBatteryMonitor_power_good:
  assumes "QueryPowerGood env"
  shows "LowBatteryWarningMessageSent (LowBatteryMonitor env s) = 0"
    and "LowBatteryBtOffMessageSent (LowBatteryMonitor env s) = 0"
    and "routed (LowBatteryMonitor env s) =
           routed s @ (if LowBatteryBtOffMessageSent s \<noteq> 0 then [TypeOnly TurnRadioOnMsg] else [])"
  using assms by (simp_all add: mon_defs)

lemma LowBatteryMonitor_routed:
  assumes "\<not> QueryPowerGood env"
  shows "routed (LowBatteryMonitor env s) = routed s
     @ (if ReadBatterySenseAverage s < LowBatteryBtOffLevel s \<and> LowBatteryBtOffMessageSent s = 0
        then bt_off_group (memory env) (ReadBatterySenseAverage s) else [])
     @ (if ReadBatterySenseAverage s < LowBatteryWarningLevel s \<and> LowBatteryWarningMessageSent s = 0
        then warning_group (memory env) (ReadBatterySenseAverage s) else [])"
  using assms by (simp add: mon_defs bt_off_group_def warning_group_def)

lemma LowBatteryMonitor_latches:
  assumes "\<not> QueryPowerGood env"
  shows "LowBatteryBtOffMessageSent (LowBatteryMonitor env s) =
          (if ReadBatterySenseAverage s < LowBatteryBtOffLevel s \<and> LowBatteryBtOffMessageSent s = 0
           then 1 else LowBatteryBtOffMessageSent s)"
    and "LowBatteryWarningMessageSent (LowBatteryMonitor env s) =
          (if ReadBatterySenseAverage s < LowBatteryWarningLevel s \<and> LowBatteryWarningMessageSent s = 0
           then 1 else LowBatteryWarningMessageSent s)"
  using assms by (simp_all add: mon_defs)

lemma LowBatteryMonitor_frame:
  "battery_averager (LowBatteryMonitor env s) = battery_averager s"
  "light_averager (LowBatteryMonitor env s) = light_averager s"
  "LowBatteryWarningLevel (LowBatteryMonitor env s) = LowBatteryWarningLevel s"
  "LowBatteryBtOffLevel (LowBatteryMonitor env s) = LowBatteryBtOffLevel s"
  "AdcHardwareMutex (LowBatteryMonitor env s) = AdcHardwareMutex s"
  "hw_log (LowBatteryMonitor env s) = hw_log s"
  "nv_store (LowBatteryMonitor env s) = nv_store s"
  by (simp_all add: mon_defs battery_averager_def light_averager_def)

lemma warning_group_not_bt_off: "\<not> list_ex is_bt_off (warning_group mem v)"
  by (simp add: warning_group_def is_bt_off_def warning_vibration_def bt_off_vibration_def)

lemma SetBatteryLevels_frame:
  "battery_averager (SetBatteryLevels pData s) = battery_averager s"
  "light_averager (SetBatteryLevels pData s) = light_averager s"
  "LowBatteryWarningMessageSent (SetBatteryLevels pData s) = LowBatteryWarningMessageSent s"
  "LowBatteryBtOffMessageSent (SetBatteryLevels pData s) = LowBatteryBtOffMessageSent s"
  "routed (SetBatteryLevels pData s) = routed s"
  "AdcHardwareMutex (SetBatteryLevels pData s) = AdcHardwareMutex s"
  "hw_log (SetBatteryLevels pData s) = hw_log s"
  "debug_uart (SetBatteryLevels pData s) = debug_uart s"
  "HardwareConfiguration (SetBatteryLevels pData s) = HardwareConfiguration s"
  by (simp_all add: SetBatteryLevels_def OsalNvWrite_def Let_def battery_averager_def light_averager_def)

text \<open>One call that is not a power-good pass keeps a set BtOff latch and routes no BtOff message.\<close>

lemma call_latched:
  assumes "LowBatteryBtOffMessageSent s \<noteq> 0" and "\<not> power_good_call c" and "call c s = Some s'"
  shows "LowBatteryBtOffMessageSent s' \<noteq> 0 \<and> (\<exists>new. routed s' = routed s @ new \<and> \<not> list_ex is_bt_off new)"
proof (cases c)
  case (Call_HardwareCfgCycle env)
  with assms(3) have "alert_view s' = alert_view s" by (simp add: HardwareCfgCycle_views)
  with assms(1) show ?thesis by (simp add: alert_view_def)
next
  case (Call_BatterySenseCycle env)
  with assms(3) have "alert_view s' = alert_view s" by (simp add: BatterySenseCycle_views)
  with assms(1) show ?thesis by (simp add: alert_view_def)
next
  case (Call_LightSenseCycle env)
  with assms(3) have "alert_view s' = alert_view s" by (simp add: LightSenseCycle_views)
  with assms(1) show ?thesis by (simp add: alert_view_def)
next
  case (Call_LowBatteryMonitor env)
  with assms have npg: "\<not> QueryPowerGood env" and s': "s' = LowBatteryMonitor env s" by auto
  show ?thesis
    using assms(1) unfolding s'
    by (simp add: LowBatteryMonitor_latches [OF npg] LowBatteryMonitor_routed [OF npg]
        warning_group_not_bt_off)
next
  case (Call_SetBatteryLevels pData)
  with assms(3) have "s' = SetBatteryLevels pData s" by simp
  with assms(1) show ?thesis by (simp add: SetBatteryLevels_frame)
qed

lemma run_latched:
  assumes "LowBatteryBtOffMessageSent s \<noteq> 0" and "\<not> list_ex power_good_call cs" and "run cs s = Some s'"
  shows "LowBatteryBtOffMessageSent s' \<noteq> 0 \<and> (\<exists>new. routed s' = routed s @ new \<and> \<not> list_ex is_bt_off new)"
  using assms
proof (induction cs arbitrary: s)
  case Nil
  then show ?case by simp
next
  case (Cons c cs)
  from Cons.prems(3) obtain s1 where c: "call c s = Some s1" and r: "run cs s1 = Some s'"
    by (auto simp: bind_eq_Some_conv)
  from Cons.prems(2) have npg: "\<not> power_good_call c" "\<not> list_ex power_good_call cs" by auto
  from call_latched [OF Cons.prems(1) npg(1) c] obtain new1 where
    l1: "LowBatteryBtOffMessageSent s1 \<noteq> 0" and n1: "routed s1 = routed s @ new1" "\<not> list_ex is_bt_off new1"
    by blast
  from Cons.IH [OF l1 npg(2) r] obtain new2 where
    l2: "LowBatteryBtOffMessageSent s' \<noteq> 0" and n2: "routed s' = routed s1 @ new2" "\<not> list_ex is_bt_off new2"
    by blast
  have "routed s' = routed s @ (new1 @ new2)" using n1 n2 by simp
  moreover have "\<not> list_ex is_bt_off (new1 @ new2)" using n1 n2 by (auto simp: list_ex_iff)
  ultimately show ?case using l2 by blast
qed

lemma InitializeAdc_fields:
  "battery_averager (InitializeAdc s) = (0, BatterySenseSamples s, 0, 0)"
  "light_averager (InitializeAdc s) = (0, LightSenseSamples s, 0, 0)"
  "LowBatteryWarningMessageSent (InitializeAdc s) = 0"
  "LowBatteryBtOffMessageSent (InitializeAdc s) = 0"
  "AdcHardwareMutex (InitializeAdc s) = False"
  "routed (InitializeAdc s) = routed s"
  "HardwareConfiguration (InitializeAdc s) = 0"
  "LowBatteryWarningLevel (InitializeAdc s) =
     (case nv_store s NVID_LOW_BATTERY_WARNING_LEVEL of Some v \<Rightarrow> v | None \<Rightarrow> 3500)"
  "LowBatteryBtOffLevel (InitializeAdc s) =
     (case nv_store s NVID_LOW_BATTERY_BTOFF_LEVEL of Some v \<Rightarrow> v | None \<Rightarrow> 3300)"
  by (simp_all add: InitializeAdc_def InitializeLowBatteryLevels_def nv_defs xSemaphoreGive_def hw_def
      Let_def battery_averager_def light_averager_def split: option.splits)

lemma first_boot_fields:
  "battery_averager first_boot = (0, replicate MAX_SAMPLES 0, 0, 0)"
  "light_averager first_boot = (0, replicate MAX_SAMPLES 0, 0, 0)"
  "LowBatteryWarningMessageSent first_boot = 0"
  "LowBatteryBtOffMessageSent first_boot = 0"
  "AdcHardwareMutex first_boot = False"
  "routed first_boot = []"
  "LowBatteryWarningLevel first_boot = 3500"
  "LowBatteryBtOffLevel first_boot = 3300"
  by (simp_all add: first_boot_def InitializeAdc_fields power_on_def)

lemma first_boot_average: "ReadBatterySenseAverage first_boot = 0"
  by (simp add: ReadBatterySenseAverage_average first_boot_fields average_def)

lemma latched_state_latch: "LowBatteryBtOffMessageSent latched_state = 1"
  by (simp add: latched_state_def LowBatteryMonitor_latches quiet_monitor_def
      first_boot_average first_boot_fields)

subsection \<open>The sample buffers\<close>

lemma sample_total_sum:
  "i \<le> MAX_SAMPLES \<Longrightarrow> length xs = MAX_SAMPLES \<Longrightarrow> sample_total xs i acc = acc + sum_list (drop i xs)"
proof (induction xs i acc rule: sample_total.induct)
  case (1 Samples i SampleTotal)
  show ?case
  proof (cases "i < MAX_SAMPLES")
    case True
    then have d: "drop i Samples = Samples ! i # drop (Suc i) Samples"
      using 1(3) by (simp add: Cons_nth_drop_Suc)
    have "sample_total Samples (Suc i) (SampleTotal + Samples ! i)
          = SampleTotal + Samples ! i + sum_list (drop (Suc i) Samples)"
      using 1(1) [OF True] True 1(3) by simp
    then show ?thesis using True d by (subst sample_total.simps) (simp add: add.assoc)
  next
    case False
    with 1(2,3) show ?thesis by (subst sample_total.simps) simp
  qed
qed

lemma sample_total_0: "length xs = MAX_SAMPLES \<Longrightarrow> sample_total xs 0 0 = sum_list xs"
  by (simp add: sample_total_sum)

lemma unat_u8_Suc: "unat (i :: u8) < 10 \<Longrightarrow> unat (i + 1) = Suc (unat i)"
  by (simp add: unat_word_ariths)

lemma ring_inv_init: "length xs = MAX_SAMPLES \<Longrightarrow> ring_inv [] (0, xs, 0, 0)"
  by (simp add: ring_inv_def)

lemma update_last: "length xs = Suc n \<Longrightarrow> xs[n := v] = take n xs @ [v]"
  by (induction xs arbitrary: n) (auto split: nat.splits)

lemma publish_step:
  assumes "unat i < 10"
  shows "publish v (x, xs, i, r) =
    (if unat i = 9 then (v, xs[9 := v], 0, 1) else (v, xs[unat i := v], i + 1, r))"
proof -
  have "unat (i + 1) = Suc (unat i)" using assms by (rule unat_u8_Suc)
  then have "(MAX_SAMPLES \<le> unat (i + 1)) = (unat i = 9)" using assms by arith
  then show ?thesis by (simp add: publish_def)
qed

lemma ring_invI:
  assumes "length xs = MAX_SAMPLES" and "unat i = length vs mod MAX_SAMPLES"
    and "x = (if vs = [] then 0 else last vs)"
    and "length vs < MAX_SAMPLES \<Longrightarrow> r = 0 \<and> take (length vs) xs = vs"
    and "MAX_SAMPLES \<le> length vs \<Longrightarrow>
           r = 1 \<and> drop (unat i) xs @ take (unat i) xs = drop (length vs - MAX_SAMPLES) vs"
  shows "ring_inv vs (x, xs, i, r)"
  using assms unfolding ring_inv_def by (cases "length vs < MAX_SAMPLES") simp_all

lemma ring_invD:
  assumes "ring_inv vs (x, xs, i, r)"
  shows "length xs = MAX_SAMPLES" and "unat i = length vs mod MAX_SAMPLES"
    and "x = (if vs = [] then 0 else last vs)"
    and "length vs < MAX_SAMPLES \<Longrightarrow> r = 0 \<and> take (length vs) xs = vs"
    and "MAX_SAMPLES \<le> length vs \<Longrightarrow>
           r = 1 \<and> drop (unat i) xs @ take (unat i) xs = drop (length vs - MAX_SAMPLES) vs"
  using assms unfolding ring_inv_def by (auto split: if_splits)

lemma ring_inv_publish:
  assumes "ring_inv vs a"
  shows "ring_inv (vs @ [v]) (publish v a)"
proof -
  obtain x xs i r where a: "a = (x, xs, i, r)" by (cases a)
  let ?n = "length vs" and ?i = "unat i"
  note inv = ring_invD [OF assms [unfolded a]]
  have len: "length xs = MAX_SAMPLES" and i: "?i = ?n mod MAX_SAMPLES" by (fact inv)+
  have ilt: "?i < 10" using i by simp
  have i1: "unat (i + 1) = Suc ?i" using ilt by (rule unat_u8_Suc)
  show ?thesis
  proof (cases "?i = 9")
    case True
    have p: "publish v a = (v, xs[9 := v], 0, 1)"
      unfolding a using True by (simp add: publish_step [OF ilt])
    have upd: "xs[9 := v] = take 9 xs @ [v]" using len by (intro update_last) simp
    have m: "(0::nat) = length (vs @ [v]) mod MAX_SAMPLES" using i True by (simp; presburger)
    have big: "MAX_SAMPLES \<le> length (vs @ [v])" using i True by (simp; presburger)
    have w: "xs[9 := v] = drop (length (vs @ [v]) - MAX_SAMPLES) (vs @ [v])"
    proof (cases "?n < MAX_SAMPLES")
      case lt: True
      then have "?n = 9" using i True by simp
      moreover from inv(4) [OF lt] have "take ?n xs = vs" by simp
      ultimately show ?thesis using upd by simp
    next
      case False
      then have ge: "MAX_SAMPLES \<le> ?n" by simp
      from inv(5) [OF ge] have "drop 9 xs @ take 9 xs = drop (?n - MAX_SAMPLES) vs"
        using True by simp
      moreover have "drop 9 xs = [xs ! 9]"
      proof -
        have "xs ! 9 # drop (Suc 9) xs = drop 9 xs" using len by (intro Cons_nth_drop_Suc) simp
        moreover have "drop (Suc 9) xs = []" using len by simp
        ultimately show ?thesis by (simp only:)
      qed
      moreover have "length (vs @ [v]) - MAX_SAMPLES = Suc (?n - MAX_SAMPLES)" using ge by simp
      ultimately have "drop (length (vs @ [v]) - MAX_SAMPLES) vs = take 9 xs"
        by (metis drop_Suc tl_drop append_Cons append_Nil list.sel(3))
      moreover have "length (vs @ [v]) - MAX_SAMPLES \<le> ?n" using ge by simp
      ultimately show ?thesis using upd by simp
    qed
    show ?thesis unfolding p
    proof (rule ring_invI)
      show "length (xs[9 := v]) = MAX_SAMPLES" using len by simp
      show "unat (0::u8) = length (vs @ [v]) mod MAX_SAMPLES" using m by simp
      show "v = (if vs @ [v] = [] then 0 else last (vs @ [v]))" by simp
      show "(1::u8) = 0 \<and> take (length (vs @ [v])) (xs[9 := v]) = vs @ [v]"
        if "length (vs @ [v]) < MAX_SAMPLES" using that big by simp
      show "(1::u8) = 1 \<and> drop (unat (0::u8)) (xs[9 := v]) @ take (unat (0::u8)) (xs[9 := v])
              = drop (length (vs @ [v]) - MAX_SAMPLES) (vs @ [v])"
        if "MAX_SAMPLES \<le> length (vs @ [v])" using w by simp
    qed
  next
    case False
    then have lt: "Suc ?i < 10" using ilt by simp
    have p: "publish v a = (v, xs[?i := v], i + 1, r)"
      unfolding a using False by (simp add: publish_step [OF ilt])
    have m: "Suc ?i = length (vs @ [v]) mod MAX_SAMPLES" using i lt by (simp; presburger)
    have rot: "drop (Suc ?i) (xs[?i := v]) @ take (Suc ?i) (xs[?i := v])
                = drop (Suc ?i) xs @ take ?i xs @ [v]"
      using ilt len by (simp add: take_Suc_conv_app_nth)
    show ?thesis unfolding p
    proof (rule ring_invI)
      show "length (xs[?i := v]) = MAX_SAMPLES" using len by simp
      show "unat (i + 1) = length (vs @ [v]) mod MAX_SAMPLES" using m i1 by simp
      show "v = (if vs @ [v] = [] then 0 else last (vs @ [v]))" by simp
      show "r = 0 \<and> take (length (vs @ [v])) (xs[?i := v]) = vs @ [v]"
        if s: "length (vs @ [v]) < MAX_SAMPLES"
      proof -
        from s have small: "?n < MAX_SAMPLES" by simp
        from inv(4) [OF small] have r: "r = 0" and t: "take ?n xs = vs" by simp_all
        have iu: "?i = ?n" using i small by simp
        have "take (Suc ?n) (xs[?n := v]) = vs @ [v]"
          using small len t by (simp add: take_Suc_conv_app_nth)
        then show ?thesis using r iu by simp
      qed
      show "r = 1 \<and> drop (unat (i + 1)) (xs[?i := v]) @ take (unat (i + 1)) (xs[?i := v])
              = drop (length (vs @ [v]) - MAX_SAMPLES) (vs @ [v])"
        if b: "MAX_SAMPLES \<le> length (vs @ [v])"
      proof -
        have ge: "MAX_SAMPLES \<le> ?n"
        proof (rule ccontr)
          assume "\<not> MAX_SAMPLES \<le> ?n"
          then have "?n = 9" using b by simp
          then show False using i False by simp
        qed
        from inv(5) [OF ge] have r: "r = 1"
          and w: "drop ?i xs @ take ?i xs = drop (?n - MAX_SAMPLES) vs" by simp_all
        have dne: "drop ?i xs = xs ! ?i # drop (Suc ?i) xs"
          using ilt len by (simp add: Cons_nth_drop_Suc)
        have e: "length (vs @ [v]) - MAX_SAMPLES = Suc (?n - MAX_SAMPLES)" using ge by simp
        have "drop (Suc (?n - MAX_SAMPLES)) vs = tl (drop (?n - MAX_SAMPLES) vs)"
          by (simp add: drop_Suc tl_drop)
        also have "\<dots> = drop (Suc ?i) xs @ take ?i xs" unfolding w [symmetric] dne by simp
        finally have "drop (Suc (?n - MAX_SAMPLES)) (vs @ [v]) = drop (Suc ?i) xs @ take ?i xs @ [v]"
          using ge by simp
        then show ?thesis using r rot unfolding i1 e by simp
      qed
    qed
  qed
qed

lemma ring_inv_fold:
  "ring_inv vs a \<Longrightarrow> ring_inv (vs @ ws) (fold publish ws a)"
proof (induction ws arbitrary: vs a)
  case Nil
  then show ?case by simp
next
  case (Cons w ws)
  from Cons.IH [OF ring_inv_publish [OF Cons.prems, of w]] show ?case by simp
qed

lemma sum_list_rotate: "sum_list (drop i xs @ take i xs) = sum_list (xs :: u16 list)"
proof -
  have "sum_list xs = sum_list (take i xs @ drop i xs)"
    by (simp only: append_take_drop_id)
  also have "\<dots> = sum_list (take i xs) + sum_list (drop i xs)"
    by (simp only: sum_list_append)
  also have "\<dots> = sum_list (drop i xs @ take i xs)"
    by (simp only: sum_list_append add.commute)
  finally show ?thesis by simp
qed

lemma ring_inv_average:
  assumes "ring_inv vs a"
  shows "average a =
    (if vs = [] then 0
     else if length vs < MAX_SAMPLES then last vs
     else sum_list (drop (length vs - MAX_SAMPLES) vs) div 10)"
proof -
  obtain x xs i r where a: "a = (x, xs, i, r)" by (cases a)
  show ?thesis
  proof (cases "length vs < MAX_SAMPLES")
    case True
    with assms a show ?thesis by (auto simp: ring_inv_def average_def)
  next
    case False
    with assms a have len: "length xs = MAX_SAMPLES" and r: "r = 1"
      and i: "unat i = length vs mod MAX_SAMPLES"
      and w': "drop (length vs mod MAX_SAMPLES) xs @ take (length vs mod MAX_SAMPLES) xs
               = drop (length vs - MAX_SAMPLES) vs"
      by (auto simp: ring_inv_def)
    have w: "drop (unat i) xs @ take (unat i) xs = drop (length vs - MAX_SAMPLES) vs"
      using w' by (simp only: i)
    have "sum_list xs = sum_list (drop (length vs - MAX_SAMPLES) vs)"
      using sum_list_rotate [of "unat i" xs] w by simp
    with False len r show ?thesis by (auto simp: a average_def sample_total_0)
  qed
qed

lemma unat_sum_list: "unat (sum_list (xs :: u16 list)) = sum_list (map unat xs) mod 65536"
proof (induction xs)
  case Nil
  show ?case by simp
next
  case (Cons x xs)
  have "unat (x + sum_list xs) = (unat x + unat (sum_list xs)) mod 65536"
    by (simp add: unat_word_ariths)
  also have "\<dots> = (unat x + sum_list (map unat xs)) mod 65536"
    by (simp add: Cons.IH mod_add_right_eq)
  finally show ?case by simp
qed

lemma unat_div10: "unat ((w :: u16) div 10) = unat w div 10"
  by (simp add: unat_div)

lemma call_views:
  assumes "call c s = Some s'"
  shows "battery_averager s' = fold publish (battery_values [c]) (battery_averager s)
       \<and> light_averager s' = fold publish (light_values [c]) (light_averager s)"
proof (cases c)
  case (Call_HardwareCfgCycle env)
  with assms have "HardwareCfgCycle env s = Some s'" by simp
  from HardwareCfgCycle_views(1,2) [OF this] show ?thesis using Call_HardwareCfgCycle by simp
next
  case (Call_BatterySenseCycle env)
  with assms have "BatterySenseCycle env s = Some s'" by simp
  from BatterySenseCycle_views(1,2) [OF this] show ?thesis using Call_BatterySenseCycle by simp
next
  case (Call_LightSenseCycle env)
  with assms have "LightSenseCycle env s = Some s'" by simp
  from LightSenseCycle_views(1,2) [OF this] show ?thesis using Call_LightSenseCycle by simp
next
  case (Call_LowBatteryMonitor env)
  with assms have "s' = LowBatteryMonitor env s" by simp
  then show ?thesis using Call_LowBatteryMonitor by (simp add: LowBatteryMonitor_frame)
next
  case (Call_SetBatteryLevels pData)
  with assms have "s' = SetBatteryLevels pData s" by simp
  then show ?thesis using Call_SetBatteryLevels by (simp add: SetBatteryLevels_frame)
qed

lemma battery_values_Cons: "battery_values (c # cs) = battery_values [c] @ battery_values cs"
  by (cases c) simp_all

lemma light_values_Cons: "light_values (c # cs) = light_values [c] @ light_values cs"
  by (cases c) simp_all

lemma run_views:
  assumes "run cs s = Some s'"
  shows "battery_averager s' = fold publish (battery_values cs) (battery_averager s)"
    and "light_averager s' = fold publish (light_values cs) (light_averager s)"
proof -
  have "battery_averager s' = fold publish (battery_values cs) (battery_averager s)
      \<and> light_averager s' = fold publish (light_values cs) (light_averager s)"
    using assms
  proof (induction cs arbitrary: s)
    case Nil
    then show ?case by simp
  next
    case (Cons c cs)
    then obtain s1 where c: "call c s = Some s1" and r: "run cs s1 = Some s'"
      by (auto simp: bind_eq_Some_conv)
    have b: "battery_values (c # cs) = battery_values [c] @ battery_values cs"
      by (rule battery_values_Cons)
    have l: "light_values (c # cs) = light_values [c] @ light_values cs"
      by (rule light_values_Cons)
    show ?case unfolding b l using Cons.IH [OF r] call_views [OF c] by simp
  qed
  then show "battery_averager s' = fold publish (battery_values cs) (battery_averager s)"
    and "light_averager s' = fold publish (light_values cs) (light_averager s)" by simp_all
qed

lemma call_returns:
  assumes "\<not> AdcHardwareMutex s" and "converter_answers c"
  shows "\<exists>s'. call c s = Some s' \<and> \<not> AdcHardwareMutex s'"
proof (cases c)
  case (Call_HardwareCfgCycle env)
  with assms(2) obtain n where "first_ready (adc_busy env) n" using first_ready_ex by auto
  with assms(1) obtain s' where s': "HardwareCfgCycle env s = Some s'"
    by (auto simp: HardwareCfgCycle_iff)
  then show ?thesis using Call_HardwareCfgCycle HardwareCfgCycle_views(4) [OF s'] by simp
next
  case (Call_BatterySenseCycle env)
  with assms(2) obtain n where "first_ready (adc_busy env) n" using first_ready_ex by auto
  with assms(1) obtain s' where s': "BatterySenseCycle env s = Some s'"
    by (auto simp: BatterySenseCycle_iff)
  then show ?thesis using Call_BatterySenseCycle BatterySenseCycle_views(4) [OF s'] by simp
next
  case (Call_LightSenseCycle env)
  with assms(2) obtain n where "first_ready (adc_busy env) n" using first_ready_ex by auto
  with assms(1) obtain s' where s': "LightSenseCycle env s = Some s'"
    by (auto simp: LightSenseCycle_iff)
  then show ?thesis using Call_LightSenseCycle LightSenseCycle_views(4) [OF s'] by simp
next
  case (Call_LowBatteryMonitor env)
  with assms(1) show ?thesis by (simp add: LowBatteryMonitor_frame)
next
  case (Call_SetBatteryLevels pData)
  with assms(1) show ?thesis by (simp add: SetBatteryLevels_frame)
qed

lemma run_returns:
  assumes "\<not> AdcHardwareMutex s" and "list_all converter_answers cs"
  shows "\<exists>s'. run cs s = Some s' \<and> \<not> AdcHardwareMutex s'"
  using assms
proof (induction cs arbitrary: s)
  case Nil
  then show ?case by simp
next
  case (Cons c cs)
  from call_returns [OF Cons.prems(1), of c] Cons.prems(2)
  obtain s1 where c: "call c s = Some s1" and m: "\<not> AdcHardwareMutex s1" by auto
  from Cons.IH [OF m] Cons.prems(2) obtain s' where "run cs s1 = Some s'" "\<not> AdcHardwareMutex s'"
    by auto
  with c show ?case by simp
qed

lemma run_battery_ring:
  assumes "length (BatterySenseSamples t) = MAX_SAMPLES" and "run cs (InitializeAdc t) = Some s"
  shows "ring_inv (battery_values cs) (battery_averager s)"
proof -
  have "ring_inv ([] @ battery_values cs) (fold publish (battery_values cs) (battery_averager (InitializeAdc t)))"
    by (rule ring_inv_fold) (simp add: InitializeAdc_fields ring_inv_init assms(1))
  then show ?thesis by (simp add: run_views(1) [OF assms(2)])
qed

lemma run_light_ring:
  assumes "length (LightSenseSamples t) = MAX_SAMPLES" and "run cs (InitializeAdc t) = Some s"
  shows "ring_inv (light_values cs) (light_averager s)"
proof -
  have "ring_inv ([] @ light_values cs) (fold publish (light_values cs) (light_averager (InitializeAdc t)))"
    by (rule ring_inv_fold) (simp add: InitializeAdc_fields ring_inv_init assms(1))
  then show ?thesis by (simp add: run_views(2) [OF assms(2)])
qed

lemma ring_inv_ready: "ring_inv vs (x, xs, i, r) \<Longrightarrow> r \<noteq> 0 \<longleftrightarrow> MAX_SAMPLES \<le> length vs"
  by (auto simp: ring_inv_def split: if_splits)

lemma publish_ready: "snd (snd (snd a)) \<noteq> 0 \<Longrightarrow> snd (snd (snd (publish v a))) \<noteq> 0"
  by (cases a) (simp add: publish_def)

lemma fold_publish_ready: "snd (snd (snd a)) \<noteq> 0 \<Longrightarrow> snd (snd (snd (fold publish vs a))) \<noteq> 0"
  by (induction vs arbitrary: a) (simp_all add: publish_ready)

lemma run_ready_kept:
  assumes "BatterySenseAverageReady s \<noteq> 0" and "run cs s = Some s'"
  shows "BatterySenseAverageReady s' \<noteq> 0"
proof -
  have r: "BatterySenseAverageReady u = snd (snd (snd (battery_averager u)))" for u
    by (simp add: battery_averager_def)
  have "snd (snd (snd (fold publish (battery_values cs) (battery_averager s)))) \<noteq> 0"
    by (rule fold_publish_ready) (use assms(1) in \<open>simp add: r\<close>)
  then show ?thesis unfolding r run_views(1) [OF assms(2)] .
qed

subsection \<open>Concrete runs\<close>

lemma bitlen_One: "bitlen 1 = 1"
  by (subst compute_bitlen) simp

lemma bitlen_Bit0: "bitlen (numeral (Num.Bit0 n)) = bitlen (numeral n) + 1"
  by (subst compute_bitlen) simp

lemma bitlen_Bit1: "bitlen (numeral (Num.Bit1 n)) = bitlen (numeral n) + 1"
  by (subst compute_bitlen) simp

lemmas fp_eval = fp_round_def fp_round_pos_def ilog2_def bitlen_One bitlen_Bit0 bitlen_Bit1
  scale2_def round_even_def Let_def dbl_div_def dbl_mul_def dbl_lit_def dbl_add_def
  dbl_of_uint_def uint_of_dbl_def

lemma CONVERSION_FACTOR_BATTERY_53: "CONVERSION_FACTOR_BATTERY 53 = 7082946096901095 / 2 ^ 52"
  by (simp add: CONVERSION_FACTOR_BATTERY_def fp_eval)

lemma CONVERSION_FACTOR_BATTERY_24: "CONVERSION_FACTOR_BATTERY 24 = 13193016 / 2 ^ 23"
  by (simp add: CONVERSION_FACTOR_BATTERY_def fp_eval)

lemma CONVERSION_FACTOR_53: "CONVERSION_FACTOR 53 = 3125 / 512"
  by (simp add: CONVERSION_FACTOR_def fp_eval)

lemma battery_4095_53: "AdcCountsToBatteryVoltage 53 4095 = 6440"
  by (simp add: AdcCountsToBatteryVoltage_def CONVERSION_FACTOR_BATTERY_53 fp_eval)

lemma battery_2000_53: "AdcCountsToBatteryVoltage 53 2000 = 3145"
  by (simp add: AdcCountsToBatteryVoltage_def CONVERSION_FACTOR_BATTERY_53 fp_eval)

lemma light_4095_53: "AdcCountsToVoltage 53 4095 = 24993"
  by (simp add: AdcCountsToVoltage_def CONVERSION_FACTOR_53 fp_eval)

lemma hot_published: "battery_published hot_battery_env = 6567"
  by (simp add: battery_published_def hot_battery_env_def battery_4095_53)

lemma bright_published: "light_published bright_env = 24993"
  by (simp add: light_published_def bright_env_def light_4095_53)

lemma battery_values_replicate:
  "battery_values (replicate n (Call_BatterySenseCycle env)) = replicate n (battery_published env)"
  by (induction n) simp_all

lemma light_values_replicate:
  "light_values (replicate n (Call_LightSenseCycle env)) = replicate n (light_published env)"
  by (induction n) simp_all

lemma first_boot_free: "\<not> AdcHardwareMutex first_boot"
  by (simp add: first_boot_fields)

lemma ten_hot_values: "battery_values ten_hot_cycles = replicate MAX_SAMPLES 6567"
  by (simp only: ten_hot_cycles_def battery_values_replicate hot_published)

lemma ten_bright_values: "light_values ten_bright_cycles = replicate MAX_SAMPLES 24993"
  by (simp only: ten_bright_cycles_def light_values_replicate bright_published)

lemma power_on_samples:
  "length (BatterySenseSamples (power_on nv)) = MAX_SAMPLES"
  "length (LightSenseSamples (power_on nv)) = MAX_SAMPLES"
  by (simp_all add: power_on_def)

lemma sum_ten: "sum_list (replicate MAX_SAMPLES (v :: u16)) = 10 * v"
  by (simp add: sum_list_replicate)

lemma ten_hot_run:
  "\<exists>s. run ten_hot_cycles first_boot = Some s \<and> ReadBatterySenseAverage s = 13"
proof -
  have "list_all converter_answers ten_hot_cycles"
    by (simp add: ten_hot_cycles_def hot_battery_env_def list_all_iff)
  from run_returns [OF first_boot_free this] obtain s where s: "run ten_hot_cycles first_boot = Some s"
    by blast
  have "ring_inv (battery_values ten_hot_cycles) (battery_averager s)"
    using s unfolding first_boot_def by (intro run_battery_ring) (simp_all add: power_on_samples)
  from ring_inv_average [OF this] have "ReadBatterySenseAverage s = 13"
    unfolding ten_hot_values by (simp add: ReadBatterySenseAverage_average sum_ten)
  with s show ?thesis by blast
qed

lemma ten_bright_run:
  "\<exists>s. run ten_bright_cycles first_boot = Some s \<and> ReadLightSenseAverage s = 5332
       \<and> LightSenseAverageReady s \<noteq> 0 \<and> LightSenseSamples s = replicate MAX_SAMPLES 24993"
proof -
  have "list_all converter_answers ten_bright_cycles"
    by (simp add: ten_bright_cycles_def bright_env_def list_all_iff)
  from run_returns [OF first_boot_free this] obtain s where s: "run ten_bright_cycles first_boot = Some s"
    by blast
  have r: "ring_inv (light_values ten_bright_cycles) (light_averager s)"
    using s unfolding first_boot_def by (intro run_light_ring) (simp_all add: power_on_samples)
  from ring_inv_average [OF r] have a: "ReadLightSenseAverage s = 5332"
    unfolding ten_bright_values by (simp add: ReadLightSenseAverage_average sum_ten)
  from r have "LightSenseAverageReady s \<noteq> 0 \<and> LightSenseSamples s = replicate MAX_SAMPLES 24993"
    unfolding ten_bright_values by (auto simp: ring_inv_def light_averager_def)
  with s a show ?thesis by blast
qed

lemma low_published: "battery_published low_battery_env = 3145"
  by (simp add: battery_published_def low_battery_env_def battery_2000_53)

lemma eleven_values: "battery_values eleven_cycles = 6567 # replicate MAX_SAMPLES 3145"
  by (simp only: eleven_cycles_def battery_values.simps battery_values_replicate
      hot_published low_published)

lemma map_unat_replicate: "map unat (replicate n (numeral k :: u16)) = replicate n (unat (numeral k :: u16))"
  by simp

subsection \<open>The hardware gate\<close>

lemma clean_polls: "clean (polls n)"
  by (induction n) (simp_all add: polls_def clean_def)

lemma cycle_shape:
  assumes "is_cycle c" and "call c s = Some s'"
  shows "\<exists>body. clean body \<and> hw_log s' = hw_log s @ SemaphoreTake # body @ [SemaphoreGive]"
proof (cases c)
  case (Call_HardwareCfgCycle env)
  with assms(2) obtain n where
    "s' = FinishHardwareCfgCycle env
            (hw ([SemaphoreTake, HARDWARE_CFG_SENSE_ENABLE, CLEAR_START_ADDR, SetStartAddr ADC12MEM0,
                  ENABLE_ADC, TaskDelayLpmDisable] @ polls n @ [TaskDelayLpmEnable])
               (s\<lparr>AdcHardwareMutex := True\<rparr>))"
    by (auto simp: HardwareCfgCycle_iff)
  then have "hw_log s' = hw_log s @ SemaphoreTake #
     ([HARDWARE_CFG_SENSE_ENABLE, CLEAR_START_ADDR, SetStartAddr ADC12MEM0,
       ENABLE_ADC, TaskDelayLpmDisable] @ polls n @
      [TaskDelayLpmEnable, ReadAdcMem ADC12MEM0, HARDWARE_CFG_SENSE_DISABLE, DISABLE_ADC, DISABLE_ADC])
     @ [SemaphoreGive]"
    by (simp add: Finish_hwcfg)
  moreover have "clean ([HARDWARE_CFG_SENSE_ENABLE, CLEAR_START_ADDR, SetStartAddr ADC12MEM0,
       ENABLE_ADC, TaskDelayLpmDisable] @ polls n @
      [TaskDelayLpmEnable, ReadAdcMem ADC12MEM0, HARDWARE_CFG_SENSE_DISABLE, DISABLE_ADC, DISABLE_ADC])"
    using clean_polls [of n] by (simp add: clean_def)
  ultimately show ?thesis by blast
next
  case (Call_BatterySenseCycle env)
  with assms(2) obtain n where
    "s' = FinishBatterySenseCycle env
            (hw ([SemaphoreTake, BATTERY_SENSE_ENABLE, CLEAR_START_ADDR, SetStartAddr ADC12MEM1,
                  ENABLE_ADC, TaskDelayLpmDisable] @ polls n @ [TaskDelayLpmEnable])
               (s\<lparr>AdcHardwareMutex := True\<rparr>))"
    by (auto simp: BatterySenseCycle_iff)
  then have "hw_log s' = hw_log s @ SemaphoreTake #
     ([BATTERY_SENSE_ENABLE, CLEAR_START_ADDR, SetStartAddr ADC12MEM1,
       ENABLE_ADC, TaskDelayLpmDisable] @ polls n @
      [TaskDelayLpmEnable, ReadAdcMem ADC12MEM1, BATTERY_SENSE_DISABLE, DISABLE_ADC])
     @ [SemaphoreGive]"
    by (simp add: Finish_battery)
  moreover have "clean ([BATTERY_SENSE_ENABLE, CLEAR_START_ADDR, SetStartAddr ADC12MEM1,
       ENABLE_ADC, TaskDelayLpmDisable] @ polls n @
      [TaskDelayLpmEnable, ReadAdcMem ADC12MEM1, BATTERY_SENSE_DISABLE, DISABLE_ADC])"
    using clean_polls [of n] by (simp add: clean_def)
  ultimately show ?thesis by blast
next
  case (Call_LightSenseCycle env)
  with assms(2) obtain n where
    "s' = FinishLightSenseCycle env
            (hw ([SemaphoreTake, LIGHT_SENSOR_L_GAIN, TaskDelayLpmDisable, vTaskDelay 10,
                  TaskDelayLpmEnable, CLEAR_START_ADDR, SetStartAddr ADC12MEM2,
                  ENABLE_ADC, TaskDelayLpmDisable] @ polls n @ [TaskDelayLpmEnable])
               (s\<lparr>AdcHardwareMutex := True\<rparr>))"
    by (auto simp: LightSenseCycle_iff)
  then have "hw_log s' = hw_log s @ SemaphoreTake #
     ([LIGHT_SENSOR_L_GAIN, TaskDelayLpmDisable, vTaskDelay 10,
       TaskDelayLpmEnable, CLEAR_START_ADDR, SetStartAddr ADC12MEM2,
       ENABLE_ADC, TaskDelayLpmDisable] @ polls n @
      [TaskDelayLpmEnable, ReadAdcMem ADC12MEM2, LIGHT_SENSOR_SHUTDOWN, DISABLE_ADC])
     @ [SemaphoreGive]"
    by (simp add: Finish_light)
  moreover have "clean ([LIGHT_SENSOR_L_GAIN, TaskDelayLpmDisable, vTaskDelay 10,
       TaskDelayLpmEnable, CLEAR_START_ADDR, SetStartAddr ADC12MEM2,
       ENABLE_ADC, TaskDelayLpmDisable] @ polls n @
      [TaskDelayLpmEnable, ReadAdcMem ADC12MEM2, LIGHT_SENSOR_SHUTDOWN, DISABLE_ADC])"
    using clean_polls [of n] by (simp add: clean_def)
  ultimately show ?thesis by blast
next
  case (Call_LowBatteryMonitor env)
  with assms(1) show ?thesis by simp
next
  case (Call_SetBatteryLevels pData)
  with assms(1) show ?thesis by simp
qed

lemma cycle_returns_iff:
  assumes "is_cycle c"
  shows "(\<exists>s'. call c s = Some s') \<longleftrightarrow> \<not> AdcHardwareMutex s \<and> converter_answers c"
  using assms
  by (cases c) (simp_all add: HardwareCfgCycle_iff BatterySenseCycle_iff LightSenseCycle_iff
      first_ready_ex)

lemma cycle_frees:
  assumes "is_cycle c" and "call c s = Some s'"
  shows "\<not> AdcHardwareMutex s'"
  using assms
  by (cases c) (simp_all add: HardwareCfgCycle_views BatterySenseCycle_views LightSenseCycle_views)

lemma cycle_trace_shape:
  assumes "is_cycle c" and "cycle_trace c = Some as"
  shows "\<exists>body. clean body \<and> as = SemaphoreTake # body @ [SemaphoreGive]"
proof -
  from assms(2) obtain s' where s': "call c (power_on Map.empty) = Some s'" and as: "as = hw_log s'"
    by (auto simp: cycle_trace_def)
  from cycle_shape [OF assms(1) s'] show ?thesis by (simp add: as power_on_def)
qed

lemma sched_inv_idle: "sched_inv idle"
  by (simp add: sched_inv_def idle_def wf_pending_def in_cycle_def)

lemma wf_pending_Give:
  assumes "wf_pending (SemaphoreGive # as)"
  shows "as = []"
proof -
  from assms obtain body where c: "clean body"
    and "SemaphoreGive # as = SemaphoreTake # body @ [SemaphoreGive] \<or> SemaphoreGive # as = body @ [SemaphoreGive]"
    by (auto simp: wf_pending_def)
  then have e: "SemaphoreGive # as = body @ [SemaphoreGive]" by auto
  show ?thesis
  proof (cases body)
    case Nil
    with e show ?thesis by simp
  next
    case (Cons b bs)
    with e have "b = SemaphoreGive" by simp
    with c Cons show ?thesis by (simp add: clean_def)
  qed
qed

lemma wf_pending_other:
  assumes "wf_pending (a # as)" and "a \<noteq> SemaphoreTake" and "a \<noteq> SemaphoreGive"
  shows "wf_pending as \<and> as \<noteq> [] \<and> (SemaphoreTake \<in> set as \<longleftrightarrow> SemaphoreTake \<in> set (a # as))"
proof -
  from assms obtain body where c: "clean body" and e: "a # as = body @ [SemaphoreGive]"
    by (auto simp: wf_pending_def)
  show ?thesis
  proof (cases body)
    case Nil
    with e assms(3) show ?thesis by simp
  next
    case (Cons b bs)
    with e have as: "as = bs @ [SemaphoreGive]" by simp
    from c Cons have "clean bs" by (simp add: clean_def)
    with as assms(2) show ?thesis by (auto simp: wf_pending_def)
  qed
qed

lemma wf_pending_Take:
  assumes "wf_pending (SemaphoreTake # as)"
  shows "wf_pending as \<and> as \<noteq> [] \<and> SemaphoreTake \<notin> set as"
proof -
  from assms obtain body where c: "clean body"
    and "SemaphoreTake # as = SemaphoreTake # body @ [SemaphoreGive] \<or> SemaphoreTake # as = body @ [SemaphoreGive]"
    by (auto simp: wf_pending_def)
  then have "as = body @ [SemaphoreGive]"
    by (cases body) (auto simp: clean_def)
  with c show ?thesis by (auto simp: wf_pending_def clean_def)
qed

lemma step_inv:
  assumes "step \<sigma> \<sigma>'" and "sched_inv \<sigma>"
  shows "sched_inv \<sigma>'"
  using assms
proof (induction rule: step.induct)
  case (start \<sigma> t c as)
  from cycle_trace_shape [OF start(2,3)] obtain body
    where b: "clean body" "as = SemaphoreTake # body @ [SemaphoreGive]" by blast
  then have w: "wf_pending as" by (auto simp: wf_pending_def)
  have nt: "\<not> in_cycle \<sigma> t" using start(1) by (simp add: in_cycle_def)
  show ?case unfolding sched_inv_def
  proof (intro allI)
    fix u
    show "wf_pending (pending (\<sigma>\<lparr>pending := (pending \<sigma>)(t := as)\<rparr>) u) \<and>
          (holder (\<sigma>\<lparr>pending := (pending \<sigma>)(t := as)\<rparr>) = Some u
            \<longleftrightarrow> in_cycle (\<sigma>\<lparr>pending := (pending \<sigma>)(t := as)\<rparr>) u)"
      using start(4) [unfolded sched_inv_def, rule_format, of u] w nt b
      by (cases "u = t") (simp_all add: in_cycle_def)
  qed
next
  case (take \<sigma> t as)
  from take(3) have wt: "wf_pending (pending \<sigma> t)" by (simp add: sched_inv_def)
  from wf_pending_Take [OF wt [unfolded take(1)]]
  have w: "wf_pending as" "as \<noteq> []" "SemaphoreTake \<notin> set as" by simp_all
  show ?case unfolding sched_inv_def
  proof (intro allI)
    fix u
    show "wf_pending (pending (\<sigma>\<lparr>holder := Some t, pending := (pending \<sigma>)(t := as)\<rparr>) u) \<and>
          (holder (\<sigma>\<lparr>holder := Some t, pending := (pending \<sigma>)(t := as)\<rparr>) = Some u
            \<longleftrightarrow> in_cycle (\<sigma>\<lparr>holder := Some t, pending := (pending \<sigma>)(t := as)\<rparr>) u)"
      using take(3) [unfolded sched_inv_def, rule_format, of u] take(2) w
      by (cases "u = t") (simp_all add: in_cycle_def)
  qed
next
  case (give \<sigma> t as)
  from give(2) have wt: "wf_pending (pending \<sigma> t)" by (simp add: sched_inv_def)
  from wf_pending_Give [OF wt [unfolded give(1)]] have e: "as = []" .
  have "in_cycle \<sigma> t" using give(1) e by (simp add: in_cycle_def)
  then have h: "holder \<sigma> = Some t" using give(2) by (simp add: sched_inv_def)
  show ?case unfolding sched_inv_def
  proof (intro allI)
    fix u
    show "wf_pending (pending (\<sigma>\<lparr>holder := None, pending := (pending \<sigma>)(t := as)\<rparr>) u) \<and>
          (holder (\<sigma>\<lparr>holder := None, pending := (pending \<sigma>)(t := as)\<rparr>) = Some u
            \<longleftrightarrow> in_cycle (\<sigma>\<lparr>holder := None, pending := (pending \<sigma>)(t := as)\<rparr>) u)"
      using give(2) [unfolded sched_inv_def, rule_format, of u] h e
      by (cases "u = t") (simp_all add: in_cycle_def wf_pending_def)
  qed
next
  case (other \<sigma> t a as)
  from other(4) have wt: "wf_pending (pending \<sigma> t)" by (simp add: sched_inv_def)
  from wf_pending_other [OF wt [unfolded other(1)] other(2,3)]
  have w: "wf_pending as" "as \<noteq> []" by simp_all
  have na: "SemaphoreTake \<noteq> a" using other(2) by simp
  show ?case unfolding sched_inv_def
  proof (intro allI)
    fix u
    show "wf_pending (pending (\<sigma>\<lparr>pending := (pending \<sigma>)(t := as)\<rparr>) u) \<and>
          (holder (\<sigma>\<lparr>pending := (pending \<sigma>)(t := as)\<rparr>) = Some u
            \<longleftrightarrow> in_cycle (\<sigma>\<lparr>pending := (pending \<sigma>)(t := as)\<rparr>) u)"
      using other(4) [unfolded sched_inv_def, rule_format, of u] w other(1) na
      by (cases "u = t") (simp_all add: in_cycle_def)
  qed
qed

lemma reachable_inv:
  assumes "step\<^sup>*\<^sup>* idle \<sigma>"
  shows "sched_inv \<sigma>"
  using assms by (induction rule: rtranclp_induct) (auto intro: sched_inv_idle step_inv)

lemma mutual_exclusion:
  assumes "step\<^sup>*\<^sup>* idle \<sigma>" and "in_cycle \<sigma> t" and "in_cycle \<sigma> u"
  shows "t = u"
proof -
  from reachable_inv [OF assms(1)] assms(2,3) have "holder \<sigma> = Some t" "holder \<sigma> = Some u"
    by (simp_all add: sched_inv_def)
  then show ?thesis by simp
qed

lemma BatterySenseCycle_prompt:
  assumes "\<not> AdcHardwareMutex s" and "\<not> adc_busy env 0"
  shows "\<exists>s'. BatterySenseCycle env s = Some s' \<and> hw_log s' = hw_log s @ battery_trace"
proof -
  have "first_ready (adc_busy env) 0" using assms(2) by (simp add: first_ready_def)
  with assms(1) have "BatterySenseCycle env s = Some (FinishBatterySenseCycle env
                 (hw ([SemaphoreTake, BATTERY_SENSE_ENABLE, CLEAR_START_ADDR, SetStartAddr ADC12MEM1,
                       ENABLE_ADC, TaskDelayLpmDisable] @ polls 0 @ [TaskDelayLpmEnable])
                    (s\<lparr>AdcHardwareMutex := True\<rparr>)))"
    unfolding BatterySenseCycle_iff by blast
  then show ?thesis by (simp add: Finish_battery polls_def battery_trace_def)
qed

lemma low_battery_trace: "cycle_trace (Call_BatterySenseCycle low_battery_env) = Some battery_trace"
proof -
  have "\<not> AdcHardwareMutex (power_on Map.empty)" by (simp add: power_on_def)
  moreover have "\<not> adc_busy low_battery_env 0" by (simp add: low_battery_env_def)
  ultimately obtain s' where "BatterySenseCycle low_battery_env (power_on Map.empty) = Some s'"
    "hw_log s' = hw_log (power_on Map.empty) @ battery_trace"
    using BatterySenseCycle_prompt by blast
  then show ?thesis by (simp add: cycle_trace_def power_on_def)
qed

lemma two_tasks_reachable: "step\<^sup>*\<^sup>* idle two_tasks"
proof -
  let ?c = "Call_BatterySenseCycle low_battery_env"
  let ?s1 = "idle\<lparr>pending := (pending idle)(0 := battery_trace)\<rparr>"
  let ?s2 = "?s1\<lparr>pending := (pending ?s1)(1 := battery_trace)\<rparr>"
  let ?s3 = "?s2\<lparr>holder := Some 0, pending := (pending ?s2)(0 := tl battery_trace)\<rparr>"
  have 1: "step idle ?s1"
    by (rule step.start [of idle 0 ?c]) (simp_all add: idle_def low_battery_trace)
  have 2: "step ?s1 ?s2"
    by (rule step.start [of ?s1 1 ?c]) (simp_all add: idle_def low_battery_trace)
  have 3: "step ?s2 ?s3"
    by (rule step.take [of ?s2 0 "tl battery_trace"]) (simp_all add: idle_def battery_trace_def)
  have "?s3 = two_tasks"
    by (simp add: two_tasks_def idle_def fun_upd_twist)
  with 1 2 3 show ?thesis by (metis rtranclp.rtrancl_into_rtrancl rtranclp.rtrancl_refl)
qed

subsection \<open>Rounding and the two conversions\<close>

lemma round_even_of_int: "round_even (of_int n) = n"
  by (simp add: round_even_def)



lemma bitlen_floor_bounds:
  fixes x :: real
  assumes "1 \<le> x"
  shows "1 \<le> bitlen \<lfloor>x\<rfloor>"
    and "2 ^ nat (bitlen \<lfloor>x\<rfloor> - 1) \<le> x"
    and "x < 2 ^ nat (bitlen \<lfloor>x\<rfloor>)"
proof -
  let ?n = "\<lfloor>x\<rfloor>"
  have n: "0 < ?n" using assms by simp
  from bitlen_bounds [OF n] have lo: "2 ^ nat (bitlen ?n - 1) \<le> ?n" and hi: "?n < 2 ^ nat (bitlen ?n)"
    by simp_all
  show "1 \<le> bitlen ?n" using n by (simp add: bitlen_alt_def)
  have "real_of_int (2 ^ nat (bitlen ?n - 1)) \<le> real_of_int ?n" using lo by (simp only: of_int_le_iff)
  also have "\<dots> \<le> x" by simp
  finally show "2 ^ nat (bitlen ?n - 1) \<le> x" by simp
  have "?n + 1 \<le> 2 ^ nat (bitlen ?n)" using hi by simp
  then have "real_of_int (?n + 1) \<le> real_of_int (2 ^ nat (bitlen ?n))" by (simp only: of_int_le_iff)
  then have "real_of_int ?n + 1 \<le> 2 ^ nat (bitlen ?n)" by simp
  moreover have "x < real_of_int ?n + 1" by linarith
  ultimately show "x < 2 ^ nat (bitlen ?n)" by linarith
qed

lemma bitlen_le:
  fixes x :: real
  assumes "1 \<le> x" and "x < 2 ^ p"
  shows "nat (bitlen \<lfloor>x\<rfloor>) \<le> p"
proof (rule ccontr)
  assume "\<not> nat (bitlen \<lfloor>x\<rfloor>) \<le> p"
  then have "p \<le> nat (bitlen \<lfloor>x\<rfloor> - 1)" by simp
  then have "(2::real) ^ p \<le> 2 ^ nat (bitlen \<lfloor>x\<rfloor> - 1)" by (simp add: power_increasing)
  with bitlen_floor_bounds(2) [OF assms(1)] assms(2) show False by simp
qed

lemma scale2_neg: "scale2 (- int k) = 1 / 2 ^ k"
  by (simp add: scale2_def)

lemma fp_round_normal:
  assumes "1 \<le> x" and "x < 2 ^ p"
  shows "fp_round p x =
           real_of_int (round_even (x * 2 ^ (p - nat (bitlen \<lfloor>x\<rfloor>)))) / 2 ^ (p - nat (bitlen \<lfloor>x\<rfloor>))"
proof -
  let ?b = "nat (bitlen \<lfloor>x\<rfloor>)"
  have b1: "1 \<le> bitlen \<lfloor>x\<rfloor>" by (rule bitlen_floor_bounds(1) [OF assms(1)])
  have bp: "?b \<le> p" by (rule bitlen_le [OF assms])
  have "ilog2 x = bitlen \<lfloor>x\<rfloor> - 1" using assms(1) by (simp add: ilog2_def)
  moreover have "int ?b = bitlen \<lfloor>x\<rfloor>" using b1 by simp
  moreover have "int (p - ?b) = int p - int ?b" by (rule of_nat_diff [OF bp])
  ultimately have e: "ilog2 x - (int p - 1) = - int (p - ?b)" by linarith
  have s: "scale2 (- int (p - ?b)) = 1 / 2 ^ (p - ?b)"
    by (rule scale2_neg)
  have "0 < x" using assms(1) by simp
  then show ?thesis
    by (simp add: fp_round_def fp_round_pos_def e s Let_def)
qed

lemma fp_round_exact:
  assumes "1 \<le> x" and "x * 2 ^ d = real_of_int m" and "m < 2 ^ p"
  shows "fp_round p x = x"
proof -
  let ?b = "nat (bitlen \<lfloor>x\<rfloor>)"
  have xm: "x \<le> real_of_int m"
  proof -
    have "x * 1 \<le> x * 2 ^ d" using assms(1) by (intro mult_left_mono) simp_all
    then show ?thesis using assms(2) by simp
  qed
  have "real_of_int m < real_of_int (2 ^ p)" using assms(3) by (simp only: of_int_less_iff)
  also have "real_of_int (2 ^ p) = 2 ^ p" by simp
  finally have xp: "x < 2 ^ p" using xm by linarith
  have bp: "?b \<le> p" by (rule bitlen_le [OF assms(1) xp])
  have b1: "1 \<le> bitlen \<lfloor>x\<rfloor>" by (rule bitlen_floor_bounds(1) [OF assms(1)])
  have dp: "d \<le> p - ?b"
  proof (rule ccontr)
    assume "\<not> d \<le> p - ?b"
    then have "p \<le> nat (bitlen \<lfloor>x\<rfloor> - 1) + d" using b1 bp by simp
    then have "(2::real) ^ p \<le> 2 ^ (nat (bitlen \<lfloor>x\<rfloor> - 1) + d)" by (simp add: power_increasing)
    also have "\<dots> = 2 ^ nat (bitlen \<lfloor>x\<rfloor> - 1) * 2 ^ d" by (simp add: power_add)
    also have "\<dots> \<le> x * 2 ^ d"
      using bitlen_floor_bounds(2) [OF assms(1)] by (intro mult_right_mono) simp_all
    also have "\<dots> = real_of_int m" by (rule assms(2))
    finally have "real_of_int (2 ^ p) \<le> real_of_int m" by simp
    then have "2 ^ p \<le> m" by (simp only: of_int_le_iff)
    with assms(3) show False by simp
  qed
  have "p - ?b = d + (p - ?b - d)" using dp by simp
  then have "(2::real) ^ (p - ?b) = 2 ^ d * 2 ^ (p - ?b - d)" by (metis power_add)
  then have "x * 2 ^ (p - ?b) = x * 2 ^ d * 2 ^ (p - ?b - d)" by simp
  also have "\<dots> = real_of_int (m * 2 ^ (p - ?b - d))" using assms(2) by simp
  finally have i: "x * 2 ^ (p - ?b) = real_of_int (m * 2 ^ (p - ?b - d))" .
  have "fp_round p x = real_of_int (round_even (x * 2 ^ (p - ?b))) / 2 ^ (p - ?b)"
    by (rule fp_round_normal [OF assms(1) xp])
  also have "\<dots> = x * 2 ^ (p - ?b) / 2 ^ (p - ?b)"
    unfolding i round_even_of_int ..
  also have "\<dots> = x" by simp
  finally show ?thesis .
qed

lemma fp_round_zero: "fp_round p 0 = 0"
  by (simp add: fp_round_def)


lemma pow24_le:
  assumes "24 \<le> p" and "m < (16777216 :: int)"
  shows "m < 2 ^ p"
proof -
  have "(2::int) ^ 24 \<le> 2 ^ p" using assms(1) by (intro power_increasing) simp_all
  with assms(2) show ?thesis by simp
qed

lemma CONVERSION_FACTOR_exact:
  assumes "24 \<le> p"
  shows "CONVERSION_FACTOR p = 3125 / 512"
proof -
  have a: "fp_round p (5 / 2) = 5 / 2"
    by (rule fp_round_exact [where d = 1 and m = 5]) (simp_all add: pow24_le [OF assms])
  have b: "fp_round p 10000 = 10000"
    by (rule fp_round_exact [where d = 0 and m = 10000]) (simp_all add: pow24_le [OF assms])
  have c: "fp_round p 25000 = 25000"
    by (rule fp_round_exact [where d = 0 and m = 25000]) (simp_all add: pow24_le [OF assms])
  have d: "fp_round p 4096 = 4096"
    by (rule fp_round_exact [where d = 0 and m = 4096]) (simp_all add: pow24_le [OF assms])
  have e: "fp_round p (3125 / 512) = 3125 / 512"
    by (rule fp_round_exact [where d = 9 and m = 3125]) (simp_all add: pow24_le [OF assms])
  show ?thesis
    by (simp add: CONVERSION_FACTOR_def dbl_div_def dbl_mul_def dbl_lit_def a b c d e)
qed

lemma fp_round_nat:
  assumes "24 \<le> p" and "n < 65536"
  shows "fp_round p (real n) = real n"
proof (cases "n = 0")
  case True
  then show ?thesis by (simp add: fp_round_zero)
next
  case False
  have m: "int n < 2 ^ p" using assms(2) by (intro pow24_le [OF assms(1)]) simp
  show ?thesis
    by (rule fp_round_exact [where d = 0 and m = "int n"]) (use False m in simp_all)
qed

lemma unat_u16_less: "unat (c :: u16) < 65536"
  using unsigned_less [of c, where 'a = nat] by simp

lemma dbl_of_uint_exact: "24 \<le> p \<Longrightarrow> dbl_of_uint p c = real (unat c)"
  unfolding dbl_of_uint_def by (rule fp_round_nat [OF _ unat_u16_less])

lemma uint_of_dbl_floor:
  assumes "0 \<le> d" and "\<lfloor>d\<rfloor> < 65536"
  shows "uint (uint_of_dbl d) = \<lfloor>d\<rfloor>"
proof -
  have "0 \<le> \<lfloor>d\<rfloor>" using assms(1) by simp
  then have "uint (word_of_int \<lfloor>d\<rfloor> :: u16) = \<lfloor>d\<rfloor>"
    using assms(2) by (simp add: uint_word_of_int take_bit_int_eq_self)
  then show ?thesis using assms(1) by (simp add: uint_of_dbl_def)
qed

lemma light_product_exact:
  assumes "24 \<le> p" and "n \<le> 4095"
  shows "fp_round p (3125 / 512 * real n) = 3125 / 512 * real n"
proof (cases "n = 0")
  case True
  then show ?thesis by (simp add: fp_round_zero)
next
  case False
  then have n1: "1 \<le> real n" by simp
  have "1 * 1 \<le> (3125 / 512) * real n" using n1 by (intro mult_mono) simp_all
  then have x1: "1 \<le> 3125 / 512 * real n" by simp
  have "3125 * int n < 16777216" using assms(2) by simp
  then have m: "3125 * int n < 2 ^ p" by (rule pow24_le [OF assms(1)])
  show ?thesis
    by (rule fp_round_exact [where d = 9 and m = "3125 * int n", OF x1 _ m]) simp
qed

lemma light_conversion:
  assumes "24 \<le> p" and "unat c \<le> 4095"
  shows "uint (AdcCountsToVoltage p c) = \<lfloor>real (unat c) * (5 / 2) * 10000 / 4096\<rfloor>"
proof -
  define n where "n = unat c"
  let ?x = "3125 / 512 * real n"
  have n: "n \<le> 4095" using assms(2) by (simp add: n_def)
  have v: "AdcCountsToVoltage p c = uint_of_dbl ?x"
    unfolding AdcCountsToVoltage_def dbl_mul_def CONVERSION_FACTOR_exact [OF assms(1)]
      dbl_of_uint_exact [OF assms(1)] n_def [symmetric] light_product_exact [OF assms(1) n] ..
  have x0: "0 \<le> ?x" by simp
  have "?x \<le> 3125 / 512 * 4095" using n by simp
  then have "?x < 65536" by simp
  then have "\<lfloor>?x\<rfloor> < 65536" by (simp add: floor_less_iff)
  from uint_of_dbl_floor [OF x0 this] have "uint (AdcCountsToVoltage p c) = \<lfloor>?x\<rfloor>"
    unfolding v .
  moreover have "?x = real n * (5 / 2) * 10000 / 4096" by simp
  ultimately show ?thesis unfolding n_def by (simp only:)
qed

lemma zero_count_battery: "AdcCountsToBatteryVoltage p 0 = 0"
  by (simp add: AdcCountsToBatteryVoltage_def dbl_mul_def dbl_of_uint_def fp_round_zero uint_of_dbl_def)

lemma word_of_uint: "uint (w :: u16) = k \<Longrightarrow> w = word_of_int k"
  by (metis word_of_int_uint)








section \<open>The claims\<close>

text \<open>
  C1 (as amended). Over every sequence of calls of the module that contains no monitor
  pass with power-good true, a BtOff latch that is set stays set and no message of the
  BtOff group is routed, whatever the battery average and the thresholds become. A
  monitor pass with power-good true clears both latches and routes exactly one
  \<open>TurnRadioOnMsg\<close> when the BtOff latch was set at its start, and nothing otherwise.
\<close>

theorem bt_off_latch_sticky:
  "(LowBatteryBtOffMessageSent s \<noteq> 0 \<and> \<not> list_ex power_good_call cs \<and> run cs s = Some s'
      \<longrightarrow> LowBatteryBtOffMessageSent s' \<noteq> 0
          \<and> (\<exists>new. routed s' = routed s @ new \<and> \<not> list_ex is_bt_off new))
   \<and> (QueryPowerGood env
      \<longrightarrow> LowBatteryWarningMessageSent (LowBatteryMonitor env s) = 0
          \<and> LowBatteryBtOffMessageSent (LowBatteryMonitor env s) = 0
          \<and> routed (LowBatteryMonitor env s) =
              routed s @ (if LowBatteryBtOffMessageSent s \<noteq> 0 then [TypeOnly TurnRadioOnMsg] else []))"
  using run_latched [of s cs s'] LowBatteryMonitor_power_good [of env s] by blast

theorem bt_off_latch_sticky_witness:
  "LowBatteryBtOffMessageSent latched_state \<noteq> 0
   \<and> \<not> list_ex power_good_call sample_calls
   \<and> (\<exists>s'. run sample_calls latched_state = Some s'
          \<and> LowBatteryBtOffMessageSent s' \<noteq> 0
          \<and> (\<exists>new. routed s' = routed latched_state @ new \<and> \<not> list_ex is_bt_off new))
   \<and> QueryPowerGood charging_monitor
   \<and> LowBatteryBtOffMessageSent (LowBatteryMonitor charging_monitor latched_state) = 0
   \<and> routed (LowBatteryMonitor charging_monitor latched_state) =
        routed latched_state @ [TypeOnly TurnRadioOnMsg]"
proof -
  have h1: "LowBatteryBtOffMessageSent latched_state \<noteq> 0" by (simp add: latched_state_latch)
  have h2: "\<not> list_ex power_good_call sample_calls"
    by (simp add: sample_calls_def quiet_monitor_def)
  obtain s' where h3: "run sample_calls latched_state = Some s'"
    by (simp add: sample_calls_def)
  have h4: "QueryPowerGood charging_monitor" by (simp add: charging_monitor_def)
  from bt_off_latch_sticky [of latched_state sample_calls s' charging_monitor] h1 h2 h3 h4
  show ?thesis by simp
qed

text \<open>
  C1 as stated fails: a pass with power-good true between two passes with power-good
  false clears the latch, and the second of them routes the BtOff group again.
\<close>

theorem bt_off_resent_after_power_good:
  "LowBatteryBtOffMessageSent latched_state = 1
   \<and> QueryPowerGood charging_monitor \<and> \<not> QueryPowerGood quiet_monitor
   \<and> run [Call_LowBatteryMonitor quiet_monitor, Call_LowBatteryMonitor charging_monitor,
           Call_LowBatteryMonitor quiet_monitor] first_boot
        = Some (LowBatteryMonitor quiet_monitor (LowBatteryMonitor charging_monitor latched_state))
   \<and> routed (LowBatteryMonitor quiet_monitor (LowBatteryMonitor charging_monitor latched_state))
        = routed (LowBatteryMonitor charging_monitor latched_state)
          @ [HostMsg LowBatteryBtOffMsgHost NO_MSG_OPTIONS [0, 0], TypeOnly LowBatteryBtOffMsg,
             VibrateMsg bt_off_vibration,
             HostMsg LowBatteryWarningMsgHost NO_MSG_OPTIONS [0, 0], TypeOnly LowBatteryWarningMsg,
             VibrateMsg warning_vibration]"
proof -
  let ?s2 = "LowBatteryMonitor charging_monitor latched_state"
  have pg: "QueryPowerGood charging_monitor" by (simp add: charging_monitor_def)
  have npg: "\<not> QueryPowerGood quiet_monitor" by (simp add: quiet_monitor_def)
  have m: "memory quiet_monitor = (\<lambda>a. 0)" by (simp add: quiet_monitor_def)
  have l: "LowBatteryWarningMessageSent ?s2 = 0" "LowBatteryBtOffMessageSent ?s2 = 0"
    by (simp_all add: LowBatteryMonitor_power_good [OF pg])
  have a: "ReadBatterySenseAverage ?s2 = 0"
    by (simp add: ReadBatterySenseAverage_average LowBatteryMonitor_frame latched_state_def
        first_boot_average [unfolded ReadBatterySenseAverage_average])
  have t: "LowBatteryWarningLevel ?s2 = 3500" "LowBatteryBtOffLevel ?s2 = 3300"
    by (simp_all add: LowBatteryMonitor_frame latched_state_def first_boot_fields)
  have r: "routed (LowBatteryMonitor quiet_monitor ?s2)
        = routed ?s2
          @ [HostMsg LowBatteryBtOffMsgHost NO_MSG_OPTIONS [0, 0], TypeOnly LowBatteryBtOffMsg,
             VibrateMsg bt_off_vibration,
             HostMsg LowBatteryWarningMsgHost NO_MSG_OPTIONS [0, 0], TypeOnly LowBatteryWarningMsg,
             VibrateMsg warning_vibration]"
    by (simp add: LowBatteryMonitor_routed [OF npg] l a t bt_off_group_def warning_group_def m)
  have "run [Call_LowBatteryMonitor quiet_monitor, Call_LowBatteryMonitor charging_monitor,
           Call_LowBatteryMonitor quiet_monitor] first_boot
        = Some (LowBatteryMonitor quiet_monitor ?s2)"
    by (simp add: latched_state_def)
  with r pg npg latched_state_latch show ?thesis by simp
qed

text \<open>
  C2. One monitor pass with power-good false, both latches clear and the average below
  both thresholds routes the three messages of the BtOff group and then the three
  messages of the Warning group, and sets both latches.
\<close>

theorem double_crossing_order:
  assumes "\<not> QueryPowerGood env"
    and "LowBatteryWarningMessageSent s = 0" and "LowBatteryBtOffMessageSent s = 0"
    and "ReadBatterySenseAverage s < LowBatteryBtOffLevel s"
    and "ReadBatterySenseAverage s < LowBatteryWarningLevel s"
  shows "routed (LowBatteryMonitor env s) =
           routed s @ bt_off_group (memory env) (ReadBatterySenseAverage s)
                    @ warning_group (memory env) (ReadBatterySenseAverage s)
         \<and> LowBatteryBtOffMessageSent (LowBatteryMonitor env s) = 1
         \<and> LowBatteryWarningMessageSent (LowBatteryMonitor env s) = 1"
  using assms by (simp add: LowBatteryMonitor_routed LowBatteryMonitor_latches)

theorem double_crossing_order_witness:
  "\<not> QueryPowerGood quiet_monitor
   \<and> LowBatteryWarningMessageSent first_boot = 0 \<and> LowBatteryBtOffMessageSent first_boot = 0
   \<and> ReadBatterySenseAverage first_boot < LowBatteryBtOffLevel first_boot
   \<and> ReadBatterySenseAverage first_boot < LowBatteryWarningLevel first_boot
   \<and> routed (LowBatteryMonitor quiet_monitor first_boot) =
        [HostMsg LowBatteryBtOffMsgHost NO_MSG_OPTIONS [0, 0], TypeOnly LowBatteryBtOffMsg,
         VibrateMsg bt_off_vibration,
         HostMsg LowBatteryWarningMsgHost NO_MSG_OPTIONS [0, 0], TypeOnly LowBatteryWarningMsg,
         VibrateMsg warning_vibration]"
proof -
  have h1: "\<not> QueryPowerGood quiet_monitor" by (simp add: quiet_monitor_def)
  have h2: "LowBatteryWarningMessageSent first_boot = 0" by (simp add: first_boot_fields)
  have h3: "LowBatteryBtOffMessageSent first_boot = 0" by (simp add: first_boot_fields)
  have h4: "ReadBatterySenseAverage first_boot < LowBatteryBtOffLevel first_boot"
    by (simp add: first_boot_average first_boot_fields)
  have h5: "ReadBatterySenseAverage first_boot < LowBatteryWarningLevel first_boot"
    by (simp add: first_boot_average first_boot_fields)
  have m: "memory quiet_monitor = (\<lambda>a. 0)" by (simp add: quiet_monitor_def)
  from double_crossing_order [OF h1 h2 h3 h4 h5] h1 h2 h3 h4 h5 show ?thesis
    by (simp add: first_boot_fields first_boot_average bt_off_group_def warning_group_def m)
qed

text \<open>
  C10. \<open>SetBatteryLevels\<close> leaves the two latches, both sample buffers, their indices
  and ready flags, the three readings, the mutex, the routed messages, the debug output
  and the hardware log as they were.
\<close>

theorem SetBatteryLevels_changes_only_thresholds:
  "LowBatteryWarningMessageSent (SetBatteryLevels pData s) = LowBatteryWarningMessageSent s
   \<and> LowBatteryBtOffMessageSent (SetBatteryLevels pData s) = LowBatteryBtOffMessageSent s
   \<and> BatterySenseSamples (SetBatteryLevels pData s) = BatterySenseSamples s
   \<and> LightSenseSamples (SetBatteryLevels pData s) = LightSenseSamples s
   \<and> BatterySenseSampleIndex (SetBatteryLevels pData s) = BatterySenseSampleIndex s
   \<and> LightSenseSampleIndex (SetBatteryLevels pData s) = LightSenseSampleIndex s
   \<and> BatterySenseAverageReady (SetBatteryLevels pData s) = BatterySenseAverageReady s
   \<and> LightSenseAverageReady (SetBatteryLevels pData s) = LightSenseAverageReady s
   \<and> BatterySense (SetBatteryLevels pData s) = BatterySense s
   \<and> LightSense (SetBatteryLevels pData s) = LightSense s
   \<and> HardwareConfiguration (SetBatteryLevels pData s) = HardwareConfiguration s
   \<and> AdcHardwareMutex (SetBatteryLevels pData s) = AdcHardwareMutex s
   \<and> routed (SetBatteryLevels pData s) = routed s
   \<and> debug_uart (SetBatteryLevels pData s) = debug_uart s
   \<and> hw_log (SetBatteryLevels pData s) = hw_log s"
  by (simp add: SetBatteryLevels_eq)

text \<open>
  C3 (as amended). Start from \<open>InitializeAdc\<close> and run any sequence of calls that
  returns. With \<open>vs\<close> the values published by its battery cycles, in order:
  before any publish the battery average is \<open>0\<close>; with fewer than ten publishes it is
  the last published value; from ten publishes on it is the sum of the last ten published
  values, taken modulo \<open>2 ^ 16\<close>, divided by ten, which is their truncated mean whenever
  that sum is below \<open>2 ^ 16\<close>. The ready flag is set exactly from the tenth publish on,
  and no later call clears it.
\<close>

theorem battery_average_of_last_ten:
  assumes "length (BatterySenseSamples t) = MAX_SAMPLES"
    and "run cs (InitializeAdc t) = Some s"
  shows "(battery_values cs = [] \<longrightarrow> ReadBatterySenseAverage s = 0)
    \<and> (battery_values cs \<noteq> [] \<and> length (battery_values cs) < MAX_SAMPLES
         \<longrightarrow> ReadBatterySenseAverage s = last (battery_values cs))
    \<and> (MAX_SAMPLES \<le> length (battery_values cs)
         \<longrightarrow> unat (ReadBatterySenseAverage s) =
               (sum_list (map unat (drop (length (battery_values cs) - MAX_SAMPLES) (battery_values cs)))
                  mod 2 ^ 16) div MAX_SAMPLES)
    \<and> (MAX_SAMPLES \<le> length (battery_values cs)
         \<and> sum_list (map unat (drop (length (battery_values cs) - MAX_SAMPLES) (battery_values cs))) < 2 ^ 16
         \<longrightarrow> unat (ReadBatterySenseAverage s) =
               sum_list (map unat (drop (length (battery_values cs) - MAX_SAMPLES) (battery_values cs)))
                 div MAX_SAMPLES)
    \<and> (BatterySenseAverageReady s \<noteq> 0 \<longleftrightarrow> MAX_SAMPLES \<le> length (battery_values cs))
    \<and> (\<forall>ds s'. BatterySenseAverageReady s \<noteq> 0 \<and> run ds s = Some s'
          \<longrightarrow> BatterySenseAverageReady s' \<noteq> 0)"
proof -
  let ?vs = "battery_values cs"
  have r: "ring_inv ?vs (battery_averager s)" using assms by (rule run_battery_ring)
  note avg = ring_inv_average [OF r, folded ReadBatterySenseAverage_average]
  have big: "unat (ReadBatterySenseAverage s) =
       (sum_list (map unat (drop (length ?vs - MAX_SAMPLES) ?vs)) mod 2 ^ 16) div MAX_SAMPLES"
    if "MAX_SAMPLES \<le> length ?vs"
  proof -
    from that have "?vs \<noteq> []" by auto
    with that avg have "ReadBatterySenseAverage s = sum_list (drop (length ?vs - MAX_SAMPLES) ?vs) div 10"
      by simp
    then show ?thesis by (simp add: unat_div unat_sum_list)
  qed
  have ready: "BatterySenseAverageReady s \<noteq> 0 \<longleftrightarrow> MAX_SAMPLES \<le> length ?vs"
    using r ring_inv_ready [of ?vs "BatterySense s" "BatterySenseSamples s"
        "BatterySenseSampleIndex s" "BatterySenseAverageReady s"]
    by (simp add: battery_averager_def)
  show ?thesis using avg big ready run_ready_kept [of s] by auto
qed

theorem battery_average_of_last_ten_witness:
  "length (BatterySenseSamples (power_on Map.empty)) = MAX_SAMPLES
   \<and> (\<exists>s. run eleven_cycles (InitializeAdc (power_on Map.empty)) = Some s
        \<and> MAX_SAMPLES \<le> length (battery_values eleven_cycles)
        \<and> drop (length (battery_values eleven_cycles) - MAX_SAMPLES) (battery_values eleven_cycles)
            = replicate MAX_SAMPLES 3145
        \<and> unat (ReadBatterySenseAverage s) = 3145
        \<and> BatterySenseAverageReady s \<noteq> 0)"
proof -
  have l: "length (BatterySenseSamples (power_on Map.empty)) = MAX_SAMPLES"
    by (simp add: power_on_samples)
  have "list_all converter_answers eleven_cycles"
    by (simp add: eleven_cycles_def hot_battery_env_def low_battery_env_def list_all_iff)
  from run_returns [OF first_boot_free this] obtain s
    where s: "run eleven_cycles (InitializeAdc (power_on Map.empty)) = Some s"
    unfolding first_boot_def by blast
  have d: "drop (length (battery_values eleven_cycles) - MAX_SAMPLES) (battery_values eleven_cycles)
            = replicate MAX_SAMPLES 3145"
    unfolding eleven_values by simp
  have n: "MAX_SAMPLES \<le> length (battery_values eleven_cycles)"
    unfolding eleven_values by simp
  have sm: "sum_list (map unat (replicate MAX_SAMPLES (3145 :: u16))) = 31450"
    by (simp add: sum_list_replicate)
  from battery_average_of_last_ten [OF l s] n
  have "unat (ReadBatterySenseAverage s) = 3145 \<and> BatterySenseAverageReady s \<noteq> 0"
    unfolding d sm by simp
  with l s n d show ?thesis by blast
qed

text \<open>
  C3 as stated fails: ten battery cycles that each read the count 4095 and add a valid
  calibration offset of 127 publish 6567 ten times; the sum 65670 does not fit the
  accumulator and the average reads 13.
\<close>

theorem battery_average_wraps:
  "map_option ReadBatterySenseAverage (run ten_hot_cycles first_boot) = Some 13
   \<and> battery_values ten_hot_cycles = replicate MAX_SAMPLES 6567
   \<and> sum_list (map unat (battery_values ten_hot_cycles)) div MAX_SAMPLES = 6567"
proof -
  have "sum_list (map unat (battery_values ten_hot_cycles)) div MAX_SAMPLES = 6567"
    unfolding ten_hot_values by (simp add: sum_list_replicate)
  then show ?thesis using ten_hot_run ten_hot_values by auto
qed

text \<open>
  C9. When the light ready flag is set, \<open>ReadLightSenseAverage\<close> returns the sum of the
  ten stored samples modulo \<open>2 ^ 16\<close>, divided by ten. Ten light cycles that each read
  the count 4095 store 24993 ten times: the sum is 249930, the mean is 24993 and the
  function returns 5332.
\<close>

theorem light_average_accumulator_wraps:
  "(LightSenseAverageReady s \<noteq> 0 \<and> length (LightSenseSamples s) = MAX_SAMPLES
      \<longrightarrow> unat (ReadLightSenseAverage s) =
            (sum_list (map unat (LightSenseSamples s)) mod 2 ^ 16) div MAX_SAMPLES)
   \<and> map_option ReadLightSenseAverage (run ten_bright_cycles first_boot) = Some 5332
   \<and> map_option LightSenseSamples (run ten_bright_cycles first_boot)
        = Some (replicate MAX_SAMPLES 24993)
   \<and> sum_list (map unat (replicate MAX_SAMPLES (24993 :: u16))) = 249930
   \<and> (249930 :: nat) div MAX_SAMPLES = 24993"
proof -
  have "unat (ReadLightSenseAverage s) =
            (sum_list (map unat (LightSenseSamples s)) mod 2 ^ 16) div MAX_SAMPLES"
    if "LightSenseAverageReady s \<noteq> 0" "length (LightSenseSamples s) = MAX_SAMPLES"
    using that by (simp add: ReadLightSenseAverage_def sample_total_0 unat_div unat_sum_list)
  moreover have "sum_list (map unat (replicate MAX_SAMPLES (24993 :: u16))) = 249930"
    by (simp add: sum_list_replicate)
  ultimately show ?thesis using ten_bright_run by auto
qed

theorem light_average_accumulator_wraps_witness:
  "\<exists>s. run ten_bright_cycles first_boot = Some s
       \<and> LightSenseAverageReady s \<noteq> 0 \<and> length (LightSenseSamples s) = MAX_SAMPLES
       \<and> unat (ReadLightSenseAverage s) = (249930 mod 2 ^ 16) div MAX_SAMPLES
       \<and> unat (ReadLightSenseAverage s) = 5332"
proof -
  from ten_bright_run obtain s where s: "run ten_bright_cycles first_boot = Some s"
    and r: "LightSenseAverageReady s \<noteq> 0"
    and x: "LightSenseSamples s = replicate MAX_SAMPLES 24993" by blast
  have l: "length (LightSenseSamples s) = MAX_SAMPLES" unfolding x by simp
  have sm: "sum_list (map unat (LightSenseSamples s)) = 249930"
    unfolding x by (simp add: sum_list_replicate)
  from light_average_accumulator_wraps [of s] r l
  have "unat (ReadLightSenseAverage s) = (249930 mod 2 ^ 16) div MAX_SAMPLES"
    unfolding sm by blast
  then show ?thesis using s r l by (intro exI [of _ s]) simp
qed

text \<open>
  C7. \<open>SetBatteryLevels\<close> sets the two thresholds to 100 times its two bytes, without
  overflow, and a later \<open>InitializeLowBatteryLevels\<close> over the store it leaves yields the
  same two thresholds, whatever the rest of the state. Over an empty store
  \<open>InitializeLowBatteryLevels\<close> yields 3500 and 3300 and leaves them in the store.
\<close>

theorem threshold_round_trip:
  "unat (LowBatteryWarningLevel (SetBatteryLevels pData s)) = unat (pData 0) * 100
   \<and> unat (LowBatteryBtOffLevel (SetBatteryLevels pData s)) = unat (pData 1) * 100
   \<and> LowBatteryWarningLevel (InitializeLowBatteryLevels (t\<lparr>nv_store := nv_store (SetBatteryLevels pData s)\<rparr>))
        = LowBatteryWarningLevel (SetBatteryLevels pData s)
   \<and> LowBatteryBtOffLevel (InitializeLowBatteryLevels (t\<lparr>nv_store := nv_store (SetBatteryLevels pData s)\<rparr>))
        = LowBatteryBtOffLevel (SetBatteryLevels pData s)
   \<and> LowBatteryWarningLevel (InitializeLowBatteryLevels (t\<lparr>nv_store := Map.empty\<rparr>)) = 3500
   \<and> LowBatteryBtOffLevel (InitializeLowBatteryLevels (t\<lparr>nv_store := Map.empty\<rparr>)) = 3300
   \<and> nv_store (InitializeLowBatteryLevels (t\<lparr>nv_store := Map.empty\<rparr>))
        = [NVID_LOW_BATTERY_WARNING_LEVEL \<mapsto> 3500, NVID_LOW_BATTERY_BTOFF_LEVEL \<mapsto> 3300]"
proof -
  have "nv_store (InitializeLowBatteryLevels (t\<lparr>nv_store := Map.empty\<rparr>)) k
        = [NVID_LOW_BATTERY_WARNING_LEVEL \<mapsto> 3500, NVID_LOW_BATTERY_BTOFF_LEVEL \<mapsto> 3300] k" for k
    by (cases k) (simp_all add: InitializeLowBatteryLevels_nv)
  then have "nv_store (InitializeLowBatteryLevels (t\<lparr>nv_store := Map.empty\<rparr>))
        = [NVID_LOW_BATTERY_WARNING_LEVEL \<mapsto> 3500, NVID_LOW_BATTERY_BTOFF_LEVEL \<mapsto> 3300]"
    by (rule ext)
  then show ?thesis
    by (simp add: InitializeLowBatteryLevels_warning InitializeLowBatteryLevels_btoff
        SetBatteryLevels_eq unat_level)
qed

text \<open>
  C8. The payload of the two host messages is not the encoding of the average. After
  one battery cycle that publishes 3145 the monitor routes both host messages with the
  two bytes found at the addresses 3145 and 3146, here \<open>0xAA\<close> and \<open>0xBB\<close>; the
  little-endian encoding of 3145 is \<open>0x49\<close>, \<open>0x0C\<close>.
\<close>

theorem host_payload_read_at_average_address:
  "map_option routed (run low_battery_calls first_boot) =
     Some [HostMsg LowBatteryBtOffMsgHost NO_MSG_OPTIONS [0xAA, 0xBB],
           TypeOnly LowBatteryBtOffMsg, VibrateMsg bt_off_vibration,
           HostMsg LowBatteryWarningMsgHost NO_MSG_OPTIONS [0xAA, 0xBB],
           TypeOnly LowBatteryWarningMsg, VibrateMsg warning_vibration]
   \<and> map_option ReadBatterySenseAverage (run low_battery_calls first_boot) = Some 3145
   \<and> le16 3145 = [0x49, 0x0C]"
proof -
  have "converter_answers (Call_BatterySenseCycle low_battery_env)"
    by (simp add: low_battery_env_def)
  from call_returns [OF first_boot_free this] obtain s1
    where s1: "BatterySenseCycle low_battery_env first_boot = Some s1" by auto
  note v = BatterySenseCycle_views [OF s1]
  have avg: "ReadBatterySenseAverage s1 = 3145"
    by (simp add: ReadBatterySenseAverage_average v(1) first_boot_fields low_published
        publish_def average_def)
  have al: "LowBatteryWarningMessageSent s1 = 0" "LowBatteryBtOffMessageSent s1 = 0"
    "LowBatteryWarningLevel s1 = 3500" "LowBatteryBtOffLevel s1 = 3300" "routed s1 = []"
    using v(3) by (simp_all add: alert_view_def first_boot_fields)
  have npg: "\<not> QueryPowerGood marked_monitor" by (simp add: marked_monitor_def)
  have mem: "memory marked_monitor 3145 = 0xAA" "memory marked_monitor 3146 = 0xBB"
    by (simp_all add: marked_monitor_def)
  have r: "run low_battery_calls first_boot = Some (LowBatteryMonitor marked_monitor s1)"
    by (simp add: low_battery_calls_def s1)
  have "routed (LowBatteryMonitor marked_monitor s1) =
     [HostMsg LowBatteryBtOffMsgHost NO_MSG_OPTIONS [0xAA, 0xBB],
           TypeOnly LowBatteryBtOffMsg, VibrateMsg bt_off_vibration,
           HostMsg LowBatteryWarningMsgHost NO_MSG_OPTIONS [0xAA, 0xBB],
           TypeOnly LowBatteryWarningMsg, VibrateMsg warning_vibration]"
    by (simp add: LowBatteryMonitor_routed [OF npg] avg al bt_off_group_def warning_group_def mem)
  moreover have "ReadBatterySenseAverage (LowBatteryMonitor marked_monitor s1) = 3145"
    by (simp add: ReadBatterySenseAverage_average LowBatteryMonitor_frame avg [unfolded ReadBatterySenseAverage_average])
  moreover have "le16 3145 = [0x49, 0x0C]" by (simp add: le16_def)
  ultimately show ?thesis by (simp add: r)
qed

text \<open>
  C4. A call of one of the three conversion cycles returns exactly when the mutex is
  free at the call and the converter at some point reports not busy. When it returns,
  what it did to the mutex, the sensors and the converter is one \<open>SemaphoreTake\<close>,
  then operations none of which is on the mutex, then one \<open>SemaphoreGive\<close>, and the
  mutex is free. In every interleaving of the cycles of any number of tasks, at most
  one task is between its take and its give.
\<close>

theorem cycle_holds_gate_once:
  "(is_cycle c \<and> call c s = Some s'
      \<longrightarrow> (\<exists>body. hw_log s' = hw_log s @ SemaphoreTake # body @ [SemaphoreGive]
                  \<and> SemaphoreTake \<notin> set body \<and> SemaphoreGive \<notin> set body)
          \<and> \<not> AdcHardwareMutex s')
   \<and> (is_cycle c \<longrightarrow> ((\<exists>s'. call c s = Some s') \<longleftrightarrow> \<not> AdcHardwareMutex s \<and> converter_answers c))
   \<and> (step\<^sup>*\<^sup>* idle \<sigma> \<and> in_cycle \<sigma> t \<and> in_cycle \<sigma> u \<longrightarrow> t = u)"
  using cycle_shape [of c s s'] cycle_frees [of c s s'] cycle_returns_iff [of c s]
    mutual_exclusion [of \<sigma> t u]
  unfolding clean_def by blast

theorem cycle_holds_gate_once_witness:
  "is_cycle (Call_BatterySenseCycle low_battery_env)
   \<and> \<not> AdcHardwareMutex first_boot
   \<and> converter_answers (Call_BatterySenseCycle low_battery_env)
   \<and> (\<exists>s'. call (Call_BatterySenseCycle low_battery_env) first_boot = Some s'
          \<and> hw_log s' = hw_log first_boot @ battery_trace
          \<and> \<not> AdcHardwareMutex s')
   \<and> step\<^sup>*\<^sup>* idle two_tasks \<and> in_cycle two_tasks 0 \<and> \<not> in_cycle two_tasks 1"
proof -
  let ?c = "Call_BatterySenseCycle low_battery_env"
  have c: "is_cycle ?c" by simp
  have a: "converter_answers ?c" by (simp add: low_battery_env_def)
  have b: "\<not> adc_busy low_battery_env 0" by (simp add: low_battery_env_def)
  from BatterySenseCycle_prompt [OF first_boot_free b] obtain s'
    where s': "call ?c first_boot = Some s'" and l: "hw_log s' = hw_log first_boot @ battery_trace"
    by auto
  have i0: "in_cycle two_tasks 0" by (simp add: in_cycle_def two_tasks_def battery_trace_def)
  from cycle_holds_gate_once [of ?c first_boot s' two_tasks 0 1] c s' two_tasks_reachable i0
  have "\<not> AdcHardwareMutex s'" and "\<not> in_cycle two_tasks 1" by auto
  with c a s' l i0 first_boot_free two_tasks_reachable show ?thesis by blast
qed

text \<open>
  C6. With \<open>double\<close> in the 64-bit or in the 32-bit format, the light and
  hardware-configuration conversion of every count from 0 to 4095 is
  \<open>\<lfloor>count * 2.5 * 10000 / 4096\<rfloor>\<close>: the factor and every product are representable, so
  no rounding takes place. The count 4095 gives 24993, and the count 0 gives 0 in both
  conversions.
\<close>

theorem light_conversion_exact:
  "(unat c \<le> 4095
      \<longrightarrow> uint (AdcCountsToVoltage 53 c) = \<lfloor>real (unat c) * (5 / 2) * 10000 / 4096\<rfloor>
          \<and> uint (AdcCountsToVoltage 24 c) = \<lfloor>real (unat c) * (5 / 2) * 10000 / 4096\<rfloor>)
   \<and> AdcCountsToVoltage 53 4095 = 24993 \<and> AdcCountsToVoltage 24 4095 = 24993
   \<and> AdcCountsToVoltage 53 0 = 0 \<and> AdcCountsToVoltage 24 0 = 0
   \<and> AdcCountsToBatteryVoltage p 0 = 0"
proof -
  have "AdcCountsToVoltage p 4095 = 24993 \<and> AdcCountsToVoltage p 0 = 0" if p: "24 \<le> p" for p
  proof -
    from light_conversion [OF p, of 4095] have "uint (AdcCountsToVoltage p 4095) = 24993"
      by simp
    then have "AdcCountsToVoltage p 4095 = word_of_int 24993" by (rule word_of_uint)
    then have a: "AdcCountsToVoltage p 4095 = 24993" by simp
    from light_conversion [OF p, of 0] have "uint (AdcCountsToVoltage p 0) = 0" by simp
    then have "AdcCountsToVoltage p 0 = word_of_int 0" by (rule word_of_uint)
    then have "AdcCountsToVoltage p 0 = 0" by simp
    with a show ?thesis by simp
  qed
  from this [of 53] this [of 24] light_conversion [of 53 c] light_conversion [of 24 c]
    zero_count_battery [of p]
  show ?thesis by simp
qed

theorem light_conversion_exact_witness:
  "unat (2048 :: u16) \<le> 4095
   \<and> uint (AdcCountsToVoltage 53 2048) = 12500 \<and> uint (AdcCountsToVoltage 24 2048) = 12500
   \<and> \<lfloor>real (unat (2048 :: u16)) * (5 / 2) * 10000 / 4096\<rfloor> = 12500"
  using light_conversion_exact [of 2048 53] by simp



end
